theory Spec2Isabelle
  imports Main "HOL-Library.Word"
begin

section \<open>Memory model\<close>

text \<open>
  The container of \<^verbatim>\<open>bstree.hpp\<close> is a graph of heap nodes linked by raw pointers.
  A pointer is an optional address (\<open>None\<close> is \<^verbatim>\<open>nullptr\<close>); the free store is a list
  of cells indexed by address, a cell being \<open>None\<close> once its storage has been deallocated.
  Allocation appends a cell, so a fresh address is never equal to an older one.
\<close>

type_synonym addr = nat
type_synonym ptr = "addr option"

record 'a node =
  nvalue :: 'a
  left :: ptr
  right :: ptr
  parent :: ptr

type_synonym 'a heap = "'a node option list"

text \<open>
  What C++ leaves undefined is a fault of the model: reading through a null pointer,
  touching storage that is not (or no longer) allocated, freeing storage twice, indexing
  outside a range; a failed \<^verbatim>\<open>assert\<close> aborts. Every loop of the source is a recursive
  function with a fuel argument, and a loop that has used up its fuel yields \<open>Timeout\<close>;
  an operation hands its fuel to each loop it runs. A call that yields \<open>Timeout\<close> for
  every amount of fuel is a call that never returns.

  Allocation always succeeds, and the constructor and destructor of a value do not throw:
  the \<^verbatim>\<open>catch\<close> blocks of the source are not part of the model.
\<close>

datatype fault = NullDeref | Dangling | DoubleFree | OutOfBounds | AssertFailed

datatype 'a result = Done 'a | Fault fault | Timeout

fun rbind :: "'a result \<Rightarrow> ('a \<Rightarrow> 'b result) \<Rightarrow> 'b result" where
  "rbind (Done x) f = f x"
| "rbind (Fault e) f = Fault e"
| "rbind Timeout f = Timeout"

definition cell :: "'a heap \<Rightarrow> addr \<Rightarrow> 'a node option" where
  "cell h a = (if a < length h then h ! a else None)"

definition deref :: "'a heap \<Rightarrow> ptr \<Rightarrow> 'a node result" where
  "deref h p =
     (case p of
        None \<Rightarrow> Fault NullDeref
      | Some a \<Rightarrow> (case cell h a of None \<Rightarrow> Fault Dangling | Some n \<Rightarrow> Done n))"

definition update :: "'a heap \<Rightarrow> ptr \<Rightarrow> ('a node \<Rightarrow> 'a node) \<Rightarrow> 'a heap result" where
  "update h p f =
     (case p of
        None \<Rightarrow> Fault NullDeref
      | Some a \<Rightarrow> (case cell h a of None \<Rightarrow> Fault Dangling | Some n \<Rightarrow> Done (h[a := Some (f n)])))"

text \<open>\<^verbatim>\<open>node_create\<close>: allocate one node and construct it with the given value and parent.\<close>

definition node_create :: "ptr \<Rightarrow> 'a heap \<Rightarrow> 'a \<Rightarrow> 'a heap \<times> ptr" where
  "node_create p h v =
     (h @ [Some \<lparr>nvalue = v, left = None, right = None, parent = p\<rparr>], Some (length h))"

text \<open>\<^verbatim>\<open>(&n->value)->~value_type ()\<close> followed by \<^verbatim>\<open>alloc.deallocate (n, 1)\<close>.\<close>

definition destroy :: "'a heap \<Rightarrow> ptr \<Rightarrow> 'a heap result" where
  "destroy h p = rbind (deref h p) (\<lambda>_. Done h)"

definition deallocate :: "'a heap \<Rightarrow> ptr \<Rightarrow> 'a heap result" where
  "deallocate h p =
     (case p of
        None \<Rightarrow> Fault NullDeref
      | Some a \<Rightarrow> (case cell h a of None \<Rightarrow> Fault DoubleFree | Some n \<Rightarrow> Done (h[a := None])))"

section \<open>The iterator\<close>

datatype state = invalid | valid | after_end

record bstree_iterator =
  iter :: ptr
  state :: state

text \<open>\<^verbatim>\<open>bstree_iterator (Node * i, enum state s = state::valid)\<close> and the default constructor.\<close>

definition iterator :: "ptr \<Rightarrow> bstree_iterator" where
  "iterator i = \<lparr>iter = i, state = valid\<rparr>"

definition iterator_default :: bstree_iterator where
  "iterator_default = \<lparr>iter = None, state = after_end\<rparr>"

text \<open>\<^verbatim>\<open>while (n->left) n = n->left;\<close> and its mirror image.\<close>

fun descend_left :: "nat \<Rightarrow> 'a heap \<Rightarrow> ptr \<Rightarrow> ptr result" where
  "descend_left 0 h n = Timeout"
| "descend_left (Suc k) h n =
     rbind (deref h n) (\<lambda>nd. if left nd \<noteq> None then descend_left k h (left nd) else Done n)"

fun descend_right :: "nat \<Rightarrow> 'a heap \<Rightarrow> ptr \<Rightarrow> ptr result" where
  "descend_right 0 h n = Timeout"
| "descend_right (Suc k) h n =
     rbind (deref h n) (\<lambda>nd. if right nd \<noteq> None then descend_right k h (right nd) else Done n)"

text \<open>
  The \<^verbatim>\<open>while (true)\<close> of \<^verbatim>\<open>operator++\<close>: \<open>it\<close> climbs; the loop is left either at the
  root (the iterator becomes after-end and keeps the node \<open>n\<close> it started from) or at the
  first ancestor reached from its left child.
\<close>

fun incr_ascend :: "nat \<Rightarrow> 'a heap \<Rightarrow> ptr \<Rightarrow> ptr \<Rightarrow> state \<Rightarrow> (ptr \<times> state) result" where
  "incr_ascend 0 h it n st = Timeout"
| "incr_ascend (Suc k) h it n st =
     rbind (deref h it) (\<lambda>itn.
       if parent itn = None then Done (n, after_end)
       else rbind (deref h (parent itn)) (\<lambda>pn.
         if left pn = it then Done (parent itn, st)
         else incr_ascend k h (parent itn) n st))"

definition increment :: "nat \<Rightarrow> 'a heap \<Rightarrow> bstree_iterator \<Rightarrow> bstree_iterator result" where
  "increment k h this =
     (if iter this \<noteq> None \<and> state this \<noteq> after_end \<and> state this \<noteq> invalid then
        rbind (deref h (iter this)) (\<lambda>n.
          if right n \<noteq> None then
            rbind (descend_left k h (right n)) (\<lambda>m. Done (this\<lparr>iter := m\<rparr>))
          else if parent n \<noteq> None then
            rbind (deref h (parent n)) (\<lambda>p.
              if iter this = left p then Done (this\<lparr>iter := parent n\<rparr>)
              else rbind (incr_ascend k h (parent n) (iter this) (state this))
                     (\<lambda>(m, s). Done \<lparr>iter = m, state = s\<rparr>))
          else Done (this\<lparr>state := after_end\<rparr>))
      else Done this)"

text \<open>
  The \<^verbatim>\<open>while (true)\<close> of \<^verbatim>\<open>operator--\<close>. Its three branches are: at the root, set the
  iterator to invalid/null; at a right child, set \<open>n\<close> to the parent; otherwise climb.
  The first two branches neither \<^verbatim>\<open>break\<close> nor change \<open>it\<close>, and the loop has no
  other exit, so the model has no \<open>Done\<close> case either.
\<close>

fun decr_ascend ::
  "nat \<Rightarrow> 'a heap \<Rightarrow> ptr \<Rightarrow> ptr \<Rightarrow> bstree_iterator \<Rightarrow> bstree_iterator result" where
  "decr_ascend 0 h it n this = Timeout"
| "decr_ascend (Suc k) h it n this =
     rbind (deref h it) (\<lambda>itn.
       if parent itn = None then decr_ascend k h it n (this\<lparr>state := invalid, iter := None\<rparr>)
       else rbind (deref h (parent itn)) (\<lambda>pn.
         if right pn = it then decr_ascend k h it (parent itn) this
         else decr_ascend k h (parent itn) n this))"

definition decrement :: "nat \<Rightarrow> 'a heap \<Rightarrow> bstree_iterator \<Rightarrow> bstree_iterator result" where
  "decrement k h this =
     (if iter this \<noteq> None \<and> state this \<noteq> after_end \<and> state this \<noteq> invalid then
        rbind (deref h (iter this)) (\<lambda>n.
          if left n \<noteq> None then
            rbind (descend_right k h (left n)) (\<lambda>m. Done (this\<lparr>iter := m\<rparr>))
          else if parent n \<noteq> None then
            rbind (deref h (parent n)) (\<lambda>p.
              if iter this = right p then Done (this\<lparr>iter := parent n\<rparr>)
              else decr_ascend k h (parent n) (iter this) this)
          else Done (this\<lparr>state := invalid, iter := None\<rparr>))
      else if iter this \<noteq> None \<and> state this = after_end then Done (this\<lparr>state := valid\<rparr>)
      else Done this)"

text \<open>\<^verbatim>\<open>operator==\<close>: equal states (valid or after-end) and equal node pointers.\<close>

definition iter_eq :: "bstree_iterator \<Rightarrow> bstree_iterator \<Rightarrow> bool" where
  "iter_eq a b =
     (if state a = valid \<and> state b = valid then iter a = iter b
      else if state a = after_end \<and> state b = after_end then iter a = iter b
      else False)"


section \<open>The tree\<close>

text \<open>
  The members \<^verbatim>\<open>_tree_root\<close>, \<^verbatim>\<open>_tree_size\<close>, \<^verbatim>\<open>_begin\<close> and \<^verbatim>\<open>_end\<close>. The nodes live in
  the heap, which every operation takes and returns; the comparator \<^verbatim>\<open>_key_comp\<close> is passed
  to the operations that compare keys.

  Where the source compares a node pointer with an iterator (\<^verbatim>\<open>parent == this->_begin\<close>,
  \<^verbatim>\<open>this->_end == n\<close>), the only conversion between the two types is the implicit
  constructor \<^verbatim>\<open>bstree_iterator (Node *, state = valid)\<close>, so the comparison is
  \<^verbatim>\<open>operator==\<close> against a valid-state iterator. Where it assigns a node pointer to an
  iterator (\<^verbatim>\<open>this->_begin = n->parent\<close>), \<^verbatim>\<open>operator= (Node *)\<close> replaces the pointer
  and keeps the state. \<^verbatim>\<open>this->_tree_root == n\<close> compares the owned pointer with \<open>n\<close>,
  \<^verbatim>\<open>iterator {this->_tree_root}\<close> is an iterator at the owned pointer, and \<^verbatim>\<open>pos->value\<close>,
  \<^verbatim>\<open>pos->left\<close>, \<^verbatim>\<open>pos->right\<close> read the members of the node under the cursor.
\<close>

record bstree =
  tree_root :: ptr
  tree_size :: "64 word"
  tree_begin :: bstree_iterator
  tree_end :: bstree_iterator

definition assign_ptr :: "bstree_iterator \<Rightarrow> ptr \<Rightarrow> bstree_iterator" where
  "assign_ptr this i = this\<lparr>iter := i\<rparr>"

text \<open>The constructors \<^verbatim>\<open>bstree (void)\<close>, \<^verbatim>\<open>bstree (Compare, Allocator)\<close>: an empty tree.\<close>

definition bstree_init :: bstree where
  "bstree_init =
     \<lparr>tree_root = None, tree_size = 0, tree_begin = iterator_default, tree_end = iterator_default\<rparr>"

definition size_bst :: "bstree \<Rightarrow> 64 word" where
  "size_bst t = tree_size t"

definition empty_bst :: "bstree \<Rightarrow> bool" where
  "empty_bst t = (tree_size t = 0)"

definition begin_bst :: "bstree \<Rightarrow> bstree_iterator" where
  "begin_bst t = tree_begin t"

definition end_bst :: "bstree \<Rightarrow> bstree_iterator" where
  "end_bst t = tree_end t"

subsection \<open>Node ownership\<close>

text \<open>
  \<^verbatim>\<open>tree_delete\<close>, the deleter of the owning pointer: walk down while a child exists,
  otherwise unlink the leaf from its parent, destroy and free it, and go on from the parent.
\<close>

fun tree_delete :: "nat \<Rightarrow> 'a heap \<Rightarrow> ptr \<Rightarrow> 'a heap result" where
  "tree_delete k h None = Done h"
| "tree_delete 0 h (Some a) = Timeout"
| "tree_delete (Suc k) h (Some a) =
     rbind (deref h (Some a)) (\<lambda>nd.
       if left nd \<noteq> None then tree_delete k h (left nd)
       else if right nd \<noteq> None then tree_delete k h (right nd)
       else
         rbind (if parent nd \<noteq> None then
                  rbind (deref h (parent nd)) (\<lambda>pn.
                    if Some a = left pn then update h (parent nd) (\<lambda>x. x\<lparr>left := None\<rparr>)
                    else if Some a = right pn then update h (parent nd) (\<lambda>x. x\<lparr>right := None\<rparr>)
                    else Done h)
                else Done h) (\<lambda>h1.
         rbind (destroy h1 (Some a)) (\<lambda>h2.
         rbind (deallocate h2 (Some a)) (\<lambda>h3.
         tree_delete k h3 (parent nd)))))"

text \<open>
  \<^verbatim>\<open>std::unique_ptr::reset (p)\<close>: store \<open>p\<close>, then run the deleter on the pointer held
  before, if that was not null. \<^verbatim>\<open>release ()\<close> gives the pointer up without deleting.
\<close>

definition root_reset :: "nat \<Rightarrow> 'a heap \<Rightarrow> bstree \<Rightarrow> ptr \<Rightarrow> ('a heap \<times> bstree) result" where
  "root_reset k h t p =
     (if tree_root t \<noteq> None
      then rbind (tree_delete k h (tree_root t)) (\<lambda>h1. Done (h1, t\<lparr>tree_root := p\<rparr>))
      else Done (h, t\<lparr>tree_root := p\<rparr>))"

definition root_release :: "bstree \<Rightarrow> bstree" where
  "root_release t = t\<lparr>tree_root := None\<rparr>"

definition make_root :: "nat \<Rightarrow> 'a heap \<Rightarrow> bstree \<Rightarrow> 'a \<Rightarrow> ('a heap \<times> bstree) result" where
  "make_root k h t v =
     (case node_create None h v of (h1, p) \<Rightarrow>
        rbind (root_reset k h1 t p) (\<lambda>(h2, t2).
          Done (h2, t2\<lparr>tree_begin := iterator (tree_root t2),
                       tree_end := \<lparr>iter = tree_root t2, state = after_end\<rparr>,
                       tree_size := 1\<rparr>)))"

text \<open>\<^verbatim>\<open>make_root (node * n)\<close>, for a node that exists already.\<close>

definition make_root_node :: "nat \<Rightarrow> 'a heap \<Rightarrow> bstree \<Rightarrow> ptr \<Rightarrow> ('a heap \<times> bstree) result" where
  "make_root_node k h t n =
     rbind (root_reset k h t n) (\<lambda>(h2, t2).
       Done (h2, t2\<lparr>tree_begin := iterator (tree_root t2),
                    tree_end := \<lparr>iter = tree_root t2, state = after_end\<rparr>,
                    tree_size := 1\<rparr>))"

subsection \<open>Attaching a leaf\<close>

text \<open>\<^verbatim>\<open>insert_left (node * const parent, Args && ...)\<close> and \<^verbatim>\<open>insert_right\<close>.\<close>

definition insert_left :: "'a heap \<Rightarrow> bstree \<Rightarrow> ptr \<Rightarrow> 'a \<Rightarrow> ('a heap \<times> bstree) result" where
  "insert_left h t p v =
     (case node_create p h v of (h1, c) \<Rightarrow>
        rbind (update h1 p (\<lambda>x. x\<lparr>left := c\<rparr>)) (\<lambda>h2.
          let t2 = t\<lparr>tree_size := tree_size t + 1\<rparr> in
          if iter_eq (tree_begin t2) (iterator p)
          then rbind (deref h2 p) (\<lambda>pn.
                 Done (h2, t2\<lparr>tree_begin := assign_ptr (tree_begin t2) (left pn)\<rparr>))
          else Done (h2, t2)))"

definition insert_right :: "'a heap \<Rightarrow> bstree \<Rightarrow> ptr \<Rightarrow> 'a \<Rightarrow> ('a heap \<times> bstree) result" where
  "insert_right h t p v =
     (case node_create p h v of (h1, c) \<Rightarrow>
        rbind (update h1 p (\<lambda>x. x\<lparr>right := c\<rparr>)) (\<lambda>h2.
          let t2 = t\<lparr>tree_size := tree_size t + 1\<rparr> in
          if iter_eq (tree_end t2) (iterator p)
          then rbind (deref h2 p) (\<lambda>pn.
                 Done (h2, t2\<lparr>tree_end := assign_ptr (tree_end t2) (right pn)\<rparr>))
          else Done (h2, t2)))"

text \<open>\<^verbatim>\<open>insert_left (node * const parent, node * const n)\<close> and \<^verbatim>\<open>insert_right\<close>.\<close>

definition insert_left_node :: "'a heap \<Rightarrow> bstree \<Rightarrow> ptr \<Rightarrow> ptr \<Rightarrow> ('a heap \<times> bstree) result" where
  "insert_left_node h t p n =
     rbind (update h p (\<lambda>x. x\<lparr>left := n\<rparr>)) (\<lambda>h1.
     rbind (update h1 n (\<lambda>x. x\<lparr>parent := p\<rparr>)) (\<lambda>h2.
       let t2 = t\<lparr>tree_size := tree_size t + 1\<rparr> in
       if iter_eq (tree_begin t2) (iterator p)
       then rbind (deref h2 p) (\<lambda>pn.
              Done (h2, t2\<lparr>tree_begin := assign_ptr (tree_begin t2) (left pn)\<rparr>))
       else Done (h2, t2)))"

definition insert_right_node :: "'a heap \<Rightarrow> bstree \<Rightarrow> ptr \<Rightarrow> ptr \<Rightarrow> ('a heap \<times> bstree) result" where
  "insert_right_node h t p n =
     rbind (update h p (\<lambda>x. x\<lparr>right := n\<rparr>)) (\<lambda>h1.
     rbind (update h1 n (\<lambda>x. x\<lparr>parent := p\<rparr>)) (\<lambda>h2.
       let t2 = t\<lparr>tree_size := tree_size t + 1\<rparr> in
       if iter_eq (tree_end t2) (iterator p)
       then rbind (deref h2 p) (\<lambda>pn.
              Done (h2, t2\<lparr>tree_end := assign_ptr (tree_end t2) (right pn)\<rparr>))
       else Done (h2, t2)))"

subsection \<open>Insertion by value\<close>

text \<open>The \<^verbatim>\<open>while (true)\<close> descent of \<^verbatim>\<open>insert (value_type const &)\<close>.\<close>

fun insert_descend ::
  "nat \<Rightarrow> ('a \<Rightarrow> 'a \<Rightarrow> bool) \<Rightarrow> 'a heap \<Rightarrow> bstree \<Rightarrow> ptr \<Rightarrow> 'a
     \<Rightarrow> ('a heap \<times> bstree \<times> bstree_iterator \<times> bool) result" where
  "insert_descend 0 cmp h t n v = Timeout"
| "insert_descend (Suc k) cmp h t n v =
     rbind (deref h n) (\<lambda>nd.
       if cmp v (nvalue nd) then
         (if left nd \<noteq> None then insert_descend k cmp h t (left nd) v
          else rbind (insert_left h t n v) (\<lambda>(h1, t1).
                 rbind (deref h1 n) (\<lambda>nd1. Done (h1, t1, iterator (left nd1), True))))
       else if cmp (nvalue nd) v then
         (if right nd \<noteq> None then insert_descend k cmp h t (right nd) v
          else rbind (insert_right h t n v) (\<lambda>(h1, t1).
                 rbind (deref h1 n) (\<lambda>nd1. Done (h1, t1, iterator (right nd1), True))))
       else Done (h, t, iterator n, False))"

definition insert_bst ::
  "nat \<Rightarrow> ('a \<Rightarrow> 'a \<Rightarrow> bool) \<Rightarrow> 'a heap \<Rightarrow> bstree \<Rightarrow> 'a
     \<Rightarrow> ('a heap \<times> bstree \<times> bstree_iterator \<times> bool) result" where
  "insert_bst k cmp h t v =
     (if empty_bst t
      then rbind (make_root k h t v) (\<lambda>(h1, t1). Done (h1, t1, iterator (tree_root t1), True))
      else insert_descend k cmp h t (tree_root t) v)"


subsection \<open>Erasure by iterator\<close>

text \<open>
  \<^verbatim>\<open>if (n->parent->left == n) n->parent->left = c; else if (n->parent->right == n)
  n->parent->right = c;\<close> (the second and third arm of each case of \<^verbatim>\<open>erase\<close>).
\<close>

definition replace_child :: "'a heap \<Rightarrow> ptr \<Rightarrow> ptr \<Rightarrow> 'a heap result" where
  "replace_child h n c =
     rbind (deref h n) (\<lambda>nd.
     rbind (deref h (parent nd)) (\<lambda>pn.
       if left pn = n then update h (parent nd) (\<lambda>x. x\<lparr>left := c\<rparr>)
       else if right pn = n then update h (parent nd) (\<lambda>x. x\<lparr>right := c\<rparr>)
       else Done h))"

text \<open>No children.\<close>

definition erase_leaf :: "nat \<Rightarrow> 'a heap \<Rightarrow> bstree \<Rightarrow> ptr \<Rightarrow> ('a heap \<times> bstree) result" where
  "erase_leaf k h t n =
     rbind (if tree_root t = n then root_reset k h t None
            else rbind (replace_child h n None) (\<lambda>h1. Done (h1, t))) (\<lambda>(h1, t1).
       if iter_eq (tree_begin t1) (iterator n)
       then rbind (deref h1 n) (\<lambda>nd.
              Done (h1, t1\<lparr>tree_begin := assign_ptr (tree_begin t1) (parent nd)\<rparr>))
       else if iter_eq (tree_end t1) (iterator n)
       then rbind (deref h1 n) (\<lambda>nd.
              Done (h1, t1\<lparr>tree_end := assign_ptr (tree_end t1) (parent nd)\<rparr>))
       else Done (h1, t1))"

text \<open>Only a right child (\<^verbatim>\<open>!n->left\<close>).\<close>

definition erase_right_only :: "nat \<Rightarrow> 'a heap \<Rightarrow> bstree \<Rightarrow> ptr \<Rightarrow> ('a heap \<times> bstree) result" where
  "erase_right_only k h t n =
     rbind (deref h n) (\<lambda>nd.
     rbind (if tree_root t = n then root_reset k h (root_release t) (right nd)
            else rbind (replace_child h n (right nd)) (\<lambda>h1. Done (h1, t))) (\<lambda>(h1, t1).
     rbind (deref h1 n) (\<lambda>nd1.
     rbind (update h1 (right nd1) (\<lambda>x. x\<lparr>parent := parent nd1\<rparr>)) (\<lambda>h2.
       if iter_eq (tree_begin t1) (iterator n)
       then rbind (deref h2 n) (\<lambda>nd2.
              Done (h2, t1\<lparr>tree_begin := assign_ptr (tree_begin t1) (parent nd2)\<rparr>))
       else Done (h2, t1)))))"

text \<open>Only a left child (\<^verbatim>\<open>!n->right\<close>).\<close>

definition erase_left_only :: "nat \<Rightarrow> 'a heap \<Rightarrow> bstree \<Rightarrow> ptr \<Rightarrow> ('a heap \<times> bstree) result" where
  "erase_left_only k h t n =
     rbind (deref h n) (\<lambda>nd.
     rbind (if tree_root t = n then root_reset k h (root_release t) (left nd)
            else rbind (replace_child h n (left nd)) (\<lambda>h1. Done (h1, t))) (\<lambda>(h1, t1).
     rbind (deref h1 n) (\<lambda>nd1.
     rbind (update h1 (left nd1) (\<lambda>x. x\<lparr>parent := parent nd1\<rparr>)) (\<lambda>h2.
       if iter_eq (tree_end t1) (iterator n)
       then rbind (deref h2 n) (\<lambda>nd2.
              Done (h2, t1\<lparr>tree_end := assign_ptr (tree_end t1) (parent nd2)\<rparr>))
       else Done (h2, t1)))))"

text \<open>
  Two children. \<^verbatim>\<open>branch\<close> is the address of the parent's link to \<open>n\<close>: its left link if
  \<^verbatim>\<open>n == parent->left\<close>, its right link otherwise.
\<close>

definition write_branch :: "'a heap \<Rightarrow> ptr \<Rightarrow> bool \<Rightarrow> ptr \<Rightarrow> 'a heap result" where
  "write_branch h p is_left c =
     (if is_left then update h p (\<lambda>x. x\<lparr>left := c\<rparr>) else update h p (\<lambda>x. x\<lparr>right := c\<rparr>))"

definition read_branch :: "'a heap \<Rightarrow> ptr \<Rightarrow> bool \<Rightarrow> ptr result" where
  "read_branch h p is_left =
     rbind (deref h p) (\<lambda>pn. Done (if is_left then left pn else right pn))"

text \<open>The loop that inserts one child of the erased node into the other child's subtree.\<close>

fun graft :: "nat \<Rightarrow> ('a \<Rightarrow> 'a \<Rightarrow> bool) \<Rightarrow> 'a heap \<Rightarrow> ptr \<Rightarrow> ptr \<Rightarrow> 'a heap result" where
  "graft 0 cmp h it ins = Timeout"
| "graft (Suc k) cmp h it ins =
     rbind (deref h ins) (\<lambda>inn.
     rbind (deref h it) (\<lambda>itn.
       if cmp (nvalue inn) (nvalue itn) then
         (if left itn \<noteq> None then graft k cmp h (left itn) ins
          else rbind (update h it (\<lambda>x. x\<lparr>left := ins\<rparr>)) (\<lambda>h1.
                 update h1 ins (\<lambda>x. x\<lparr>parent := it\<rparr>)))
       else
         (if right itn \<noteq> None then graft k cmp h (right itn) ins
          else rbind (update h it (\<lambda>x. x\<lparr>right := ins\<rparr>)) (\<lambda>h1.
                 update h1 ins (\<lambda>x. x\<lparr>parent := it\<rparr>)))))"

definition erase_two ::
  "nat \<Rightarrow> ('a \<Rightarrow> 'a \<Rightarrow> bool) \<Rightarrow> 'a heap \<Rightarrow> bstree \<Rightarrow> ptr \<Rightarrow> ('a heap \<times> bstree) result" where
  "erase_two k cmp h t n =
     (let parity = (tree_size t mod 2 = 0) in
      rbind (deref h n) (\<lambda>nd.
      rbind (if tree_root t = n then
               (if parity then
                  rbind (root_reset k h (root_release t) (left nd)) (\<lambda>(h1, t1).
                  rbind (update h1 (left nd) (\<lambda>x. x\<lparr>parent := None\<rparr>)) (\<lambda>h2. Done (h2, t1)))
                else
                  rbind (root_reset k h (root_release t) (right nd)) (\<lambda>(h1, t1).
                  rbind (update h1 (right nd) (\<lambda>x. x\<lparr>parent := None\<rparr>)) (\<lambda>h2. Done (h2, t1))))
             else
               rbind (deref h (parent nd)) (\<lambda>pn.
                 let is_left = (n = left pn) in
                 if parity then
                   rbind (write_branch h (parent nd) is_left (left nd)) (\<lambda>h1.
                   rbind (read_branch h1 (parent nd) is_left) (\<lambda>b.
                   rbind (deref h1 n) (\<lambda>nd1.
                   rbind (update h1 (left nd1) (\<lambda>x. x\<lparr>parent := b\<rparr>)) (\<lambda>h2. Done (h2, t)))))
                 else
                   rbind (write_branch h (parent nd) is_left (right nd)) (\<lambda>h1.
                   rbind (read_branch h1 (parent nd) is_left) (\<lambda>b.
                   rbind (deref h1 n) (\<lambda>nd1.
                   rbind (update h1 (right nd1) (\<lambda>x. x\<lparr>parent := b\<rparr>)) (\<lambda>h2. Done (h2, t)))))))
        (\<lambda>(h1, t1).
      rbind (deref h1 n) (\<lambda>nd1.
        let it = (if parity then left nd1 else right nd1);
            ins = (if parity then right nd1 else left nd1)
        in rbind (graft k cmp h1 it ins) (\<lambda>h2. Done (h2, t1))))))"

text \<open>
  \<^verbatim>\<open>iterator erase (iterator pos)\<close>: the successor is computed first and returned at the
  end; after the relinking the value is destroyed, the size decremented and the node freed.
\<close>

definition erase ::
  "nat \<Rightarrow> ('a \<Rightarrow> 'a \<Rightarrow> bool) \<Rightarrow> 'a heap \<Rightarrow> bstree \<Rightarrow> bstree_iterator
     \<Rightarrow> ('a heap \<times> bstree \<times> bstree_iterator) result" where
  "erase k cmp h t pos =
     (let n = iter pos in
      rbind (increment k h pos) (\<lambda>retval.
      rbind (deref h n) (\<lambda>nd.
      rbind (if left nd = None \<and> right nd = None then erase_leaf k h t n
             else if left nd = None then erase_right_only k h t n
             else if right nd = None then erase_left_only k h t n
             else erase_two k cmp h t n) (\<lambda>(h1, t1).
      rbind (destroy h1 n) (\<lambda>h2.
      rbind (deallocate h2 n) (\<lambda>h3.
        Done (h3, t1\<lparr>tree_size := tree_size t1 - 1\<rparr>, retval)))))))"

subsection \<open>Erasure by key\<close>

fun erase_descend ::
  "nat \<Rightarrow> ('a \<Rightarrow> 'a \<Rightarrow> bool) \<Rightarrow> 'a heap \<Rightarrow> bstree \<Rightarrow> ptr \<Rightarrow> 'a
     \<Rightarrow> ('a heap \<times> bstree \<times> 64 word) result" where
  "erase_descend 0 cmp h t n key = Timeout"
| "erase_descend (Suc k) cmp h t n key =
     rbind (deref h n) (\<lambda>nd.
       if cmp key (nvalue nd) then
         (if left nd \<noteq> None then erase_descend k cmp h t (left nd) key else Done (h, t, 0))
       else if cmp (nvalue nd) key then
         (if right nd \<noteq> None then erase_descend k cmp h t (right nd) key else Done (h, t, 0))
       else rbind (erase k cmp h t (iterator n)) (\<lambda>(h1, t1, r). Done (h1, t1, 1)))"

text \<open>\<^verbatim>\<open>size_type erase (key_type const & key)\<close> starts the descent at the root pointer.\<close>

definition erase_key ::
  "nat \<Rightarrow> ('a \<Rightarrow> 'a \<Rightarrow> bool) \<Rightarrow> 'a heap \<Rightarrow> bstree \<Rightarrow> 'a \<Rightarrow> ('a heap \<times> bstree \<times> 64 word) result" where
  "erase_key k cmp h t key = erase_descend k cmp h t (tree_root t) key"

subsection \<open>Lookup\<close>

fun count_descend ::
  "nat \<Rightarrow> ('a \<Rightarrow> 'a \<Rightarrow> bool) \<Rightarrow> 'a heap \<Rightarrow> ptr \<Rightarrow> 'a \<Rightarrow> 64 word result" where
  "count_descend 0 cmp h n key = Timeout"
| "count_descend (Suc k) cmp h n key =
     rbind (deref h n) (\<lambda>nd.
       if cmp key (nvalue nd) then
         (if left nd \<noteq> None then count_descend k cmp h (left nd) key else Done 0)
       else if cmp (nvalue nd) key then
         (if right nd \<noteq> None then count_descend k cmp h (right nd) key else Done 0)
       else Done 1)"

definition count_bst ::
  "nat \<Rightarrow> ('a \<Rightarrow> 'a \<Rightarrow> bool) \<Rightarrow> 'a heap \<Rightarrow> bstree \<Rightarrow> 'a \<Rightarrow> 64 word result" where
  "count_bst k cmp h t key =
     (if empty_bst t then Done 0 else count_descend k cmp h (tree_root t) key)"

fun find_descend ::
  "nat \<Rightarrow> ('a \<Rightarrow> 'a \<Rightarrow> bool) \<Rightarrow> 'a heap \<Rightarrow> bstree \<Rightarrow> ptr \<Rightarrow> 'a \<Rightarrow> bstree_iterator result" where
  "find_descend 0 cmp h t n key = Timeout"
| "find_descend (Suc k) cmp h t n key =
     rbind (deref h n) (\<lambda>nd.
       if cmp key (nvalue nd) then
         (if left nd \<noteq> None then find_descend k cmp h t (left nd) key else Done (tree_end t))
       else if cmp (nvalue nd) key then
         (if right nd \<noteq> None then find_descend k cmp h t (right nd) key else Done (tree_end t))
       else Done (iterator n))"

definition find_impl ::
  "nat \<Rightarrow> ('a \<Rightarrow> 'a \<Rightarrow> bool) \<Rightarrow> 'a heap \<Rightarrow> bstree \<Rightarrow> 'a \<Rightarrow> bstree_iterator result" where
  "find_impl k cmp h t key =
     (if empty_bst t then Done (tree_end t) else find_descend k cmp h t (tree_root t) key)"

text \<open>
  \<^verbatim>\<open>lower_bound_impl\<close>. Each loop function is the loop together with the statements that
  follow it: the backward walk ends in \<^verbatim>\<open>return ++pos\<close> or \<^verbatim>\<open>return pos\<close>, the forward
  walk in \<^verbatim>\<open>return pos\<close>.
\<close>

fun lower_bound_back ::
  "nat \<Rightarrow> ('a \<Rightarrow> 'a \<Rightarrow> bool) \<Rightarrow> 'a heap \<Rightarrow> bstree \<Rightarrow> bstree_iterator \<Rightarrow> 'a
     \<Rightarrow> bstree_iterator result" where
  "lower_bound_back 0 cmp h t pos key = Timeout"
| "lower_bound_back (Suc k) cmp h t pos key =
     rbind (deref h (iter pos)) (\<lambda>nd.
       if cmp key (nvalue nd) then
         (if iter_eq (tree_begin t) pos then Done pos
          else rbind (decrement k h pos) (\<lambda>pos1. lower_bound_back k cmp h t pos1 key))
       else if cmp (nvalue nd) key then increment k h pos
       else Done pos)"

fun lower_bound_forward ::
  "nat \<Rightarrow> ('a \<Rightarrow> 'a \<Rightarrow> bool) \<Rightarrow> 'a heap \<Rightarrow> bstree \<Rightarrow> bstree_iterator \<Rightarrow> 'a
     \<Rightarrow> bstree_iterator result" where
  "lower_bound_forward 0 cmp h t pos key = Timeout"
| "lower_bound_forward (Suc k) cmp h t pos key =
     rbind (deref h (iter pos)) (\<lambda>nd.
       if cmp (nvalue nd) key then
         (if iter_eq (tree_end t) pos then Done pos
          else rbind (increment k h pos) (\<lambda>pos1. lower_bound_forward k cmp h t pos1 key))
       else Done pos)"

definition lower_bound_impl ::
  "nat \<Rightarrow> ('a \<Rightarrow> 'a \<Rightarrow> bool) \<Rightarrow> 'a heap \<Rightarrow> bstree \<Rightarrow> 'a \<Rightarrow> bstree_iterator result" where
  "lower_bound_impl k cmp h t key =
     (if empty_bst t then Done (tree_end t)
      else
        let pos = iterator (tree_root t) in
        rbind (deref h (iter pos)) (\<lambda>nd.
          if cmp key (nvalue nd) then lower_bound_back k cmp h t pos key
          else if cmp (nvalue nd) key then lower_bound_forward k cmp h t pos key
          else Done pos))"

text \<open>\<^verbatim>\<open>upper_bound_impl\<close>, in the same way.\<close>

fun upper_bound_back ::
  "nat \<Rightarrow> ('a \<Rightarrow> 'a \<Rightarrow> bool) \<Rightarrow> 'a heap \<Rightarrow> bstree \<Rightarrow> bstree_iterator \<Rightarrow> 'a
     \<Rightarrow> bstree_iterator result" where
  "upper_bound_back 0 cmp h t pos key = Timeout"
| "upper_bound_back (Suc k) cmp h t pos key =
     rbind (deref h (iter pos)) (\<lambda>nd.
       if cmp key (nvalue nd) then
         (if iter_eq (tree_begin t) pos then Done pos
          else rbind (decrement k h pos) (\<lambda>pos1. upper_bound_back k cmp h t pos1 key))
       else increment k h pos)"

fun upper_bound_forward ::
  "nat \<Rightarrow> ('a \<Rightarrow> 'a \<Rightarrow> bool) \<Rightarrow> 'a heap \<Rightarrow> bstree \<Rightarrow> bstree_iterator \<Rightarrow> 'a
     \<Rightarrow> bstree_iterator result" where
  "upper_bound_forward 0 cmp h t pos key = Timeout"
| "upper_bound_forward (Suc k) cmp h t pos key =
     rbind (deref h (iter pos)) (\<lambda>nd.
       if cmp (nvalue nd) key then
         (if iter_eq (tree_end t) pos then Done pos
          else rbind (increment k h pos) (\<lambda>pos1. upper_bound_forward k cmp h t pos1 key))
       else if cmp key (nvalue nd) then Done pos
       else increment k h pos)"

definition upper_bound_impl ::
  "nat \<Rightarrow> ('a \<Rightarrow> 'a \<Rightarrow> bool) \<Rightarrow> 'a heap \<Rightarrow> bstree \<Rightarrow> 'a \<Rightarrow> bstree_iterator result" where
  "upper_bound_impl k cmp h t key =
     (if empty_bst t then Done (tree_end t)
      else
        let pos = iterator (tree_root t) in
        rbind (deref h (iter pos)) (\<lambda>nd.
          if cmp key (nvalue nd) then upper_bound_back k cmp h t pos key
          else if cmp (nvalue nd) key then upper_bound_forward k cmp h t pos key
          else increment k h pos))"


section \<open>Hinted insertion\<close>

text \<open>
  \<^verbatim>\<open>insert_at (iterator pos, value_type const & value)\<close>. The source reads the node's
  members through the iterator; \<^verbatim>\<open>assert\<close> guards the slot that is overwritten.
\<close>

definition insert_at ::
  "('a \<Rightarrow> 'a \<Rightarrow> bool) \<Rightarrow> 'a heap \<Rightarrow> bstree \<Rightarrow> bstree_iterator \<Rightarrow> 'a
     \<Rightarrow> ('a heap \<times> bstree \<times> bstree_iterator) result" where
  "insert_at cmp h t pos v =
     rbind (deref h (iter pos)) (\<lambda>nd.
       if cmp v (nvalue nd) then
         (if left nd \<noteq> None then Fault AssertFailed
          else rbind (insert_left h t (iter pos) v) (\<lambda>(h1, t1).
               rbind (deref h1 (iter pos)) (\<lambda>nd1.
                 Done (h1,
                       (if iter_eq pos (tree_begin t1)
                        then t1\<lparr>tree_begin := iterator (left nd1)\<rparr> else t1),
                       iterator (left nd1)))))
       else if cmp (nvalue nd) v then
         (if right nd \<noteq> None then Fault AssertFailed
          else rbind (insert_right h t (iter pos) v) (\<lambda>(h1, t1).
               rbind (deref h1 (iter pos)) (\<lambda>nd1.
                 Done (h1,
                       (if iter_eq pos (tree_end t1)
                        then t1\<lparr>tree_end := iterator (right nd1)\<rparr> else t1),
                       iterator (right nd1)))))
       else Done (h, t, pos))"

text \<open>\<^verbatim>\<open>insert_at (iterator pos, node * const n)\<close>.\<close>

definition insert_at_node ::
  "('a \<Rightarrow> 'a \<Rightarrow> bool) \<Rightarrow> 'a heap \<Rightarrow> bstree \<Rightarrow> bstree_iterator \<Rightarrow> ptr
     \<Rightarrow> ('a heap \<times> bstree \<times> bstree_iterator \<times> bool) result" where
  "insert_at_node cmp h t pos n =
     rbind (deref h n) (\<lambda>nn.
     rbind (deref h (iter pos)) (\<lambda>nd.
       if cmp (nvalue nn) (nvalue nd) then
         (if left nd \<noteq> None then Fault AssertFailed
          else rbind (insert_left_node h t (iter pos) n) (\<lambda>(h1, t1).
               rbind (deref h1 (iter pos)) (\<lambda>nd1.
                 Done (h1,
                       (if iter_eq pos (tree_begin t1)
                        then t1\<lparr>tree_begin := iterator (left nd1)\<rparr> else t1),
                       iterator (left nd1), True))))
       else if cmp (nvalue nd) (nvalue nn) then
         (if right nd \<noteq> None then Fault AssertFailed
          else rbind (insert_right_node h t (iter pos) n) (\<lambda>(h1, t1).
               rbind (deref h1 (iter pos)) (\<lambda>nd1.
                 Done (h1,
                       (if iter_eq pos (tree_end t1)
                        then t1\<lparr>tree_end := iterator (right nd1)\<rparr> else t1),
                       iterator (right nd1), True))))
       else Done (h, t, pos, False)))"

text \<open>
  The two loops that move the hint:
  \<^verbatim>\<open>while (pos != this->_begin && this->_key_comp (value, pos->value)) --pos;\<close> and
  \<^verbatim>\<open>while (pos != this->_end && this->_key_comp (pos->value, value)) ++pos;\<close>.
\<close>

fun hint_back ::
  "nat \<Rightarrow> ('a \<Rightarrow> 'a \<Rightarrow> bool) \<Rightarrow> 'a heap \<Rightarrow> bstree \<Rightarrow> bstree_iterator \<Rightarrow> 'a
     \<Rightarrow> bstree_iterator result" where
  "hint_back 0 cmp h t pos v = Timeout"
| "hint_back (Suc k) cmp h t pos v =
     (if \<not> iter_eq pos (tree_begin t) then
        rbind (deref h (iter pos)) (\<lambda>nd.
          if cmp v (nvalue nd)
          then rbind (decrement k h pos) (\<lambda>pos1. hint_back k cmp h t pos1 v)
          else Done pos)
      else Done pos)"

fun hint_forward ::
  "nat \<Rightarrow> ('a \<Rightarrow> 'a \<Rightarrow> bool) \<Rightarrow> 'a heap \<Rightarrow> bstree \<Rightarrow> bstree_iterator \<Rightarrow> 'a
     \<Rightarrow> bstree_iterator result" where
  "hint_forward 0 cmp h t pos v = Timeout"
| "hint_forward (Suc k) cmp h t pos v =
     (if \<not> iter_eq pos (tree_end t) then
        rbind (deref h (iter pos)) (\<lambda>nd.
          if cmp (nvalue nd) v
          then rbind (increment k h pos) (\<lambda>pos1. hint_forward k cmp h t pos1 v)
          else Done pos)
      else Done pos)"

text \<open>
  \<^verbatim>\<open>iterator insert (const_iterator hint, value_type const & value)\<close>: the first
  statement after building \<open>pos\<close> from the hint's pointer compares \<open>value\<close> with
  \<^verbatim>\<open>pos->value\<close>.
\<close>

definition insert_hint ::
  "nat \<Rightarrow> ('a \<Rightarrow> 'a \<Rightarrow> bool) \<Rightarrow> 'a heap \<Rightarrow> bstree \<Rightarrow> bstree_iterator \<Rightarrow> 'a
     \<Rightarrow> ('a heap \<times> bstree \<times> bstree_iterator) result" where
  "insert_hint k cmp h t hint v =
     (let pos = iterator (iter hint) in
      rbind (deref h (iter pos)) (\<lambda>nd.
      rbind (if cmp v (nvalue nd) then hint_back k cmp h t pos v
             else hint_forward k cmp h t pos v) (\<lambda>pos1.
        insert_at cmp h t pos1 v)))"

text \<open>
  \<^verbatim>\<open>emplace_hint\<close>: the node is created first, then the hint is moved as above, with the
  new node's value; a node that turns out to be a duplicate is destroyed and freed.
\<close>

definition emplace_hint ::
  "nat \<Rightarrow> ('a \<Rightarrow> 'a \<Rightarrow> bool) \<Rightarrow> 'a heap \<Rightarrow> bstree \<Rightarrow> bstree_iterator \<Rightarrow> 'a
     \<Rightarrow> ('a heap \<times> bstree \<times> bstree_iterator) result" where
  "emplace_hint k cmp h t hint v =
     (let pos = iterator (iter hint) in
      case node_create None h v of (h0, ins) \<Rightarrow>
      rbind (deref h0 ins) (\<lambda>inn.
      rbind (deref h0 (iter pos)) (\<lambda>nd.
      rbind (if cmp (nvalue inn) (nvalue nd) then hint_back k cmp h0 t pos (nvalue inn)
             else hint_forward k cmp h0 t pos (nvalue inn)) (\<lambda>pos1.
      rbind (insert_at_node cmp h0 t pos1 ins) (\<lambda>(h1, t1, r, inserted).
        if \<not> inserted
        then rbind (destroy h1 ins) (\<lambda>h2.
             rbind (deallocate h2 ins) (\<lambda>h3. Done (h3, t1, r)))
        else Done (h1, t1, r))))))"

section \<open>Clearing and moving\<close>

text \<open>\<^verbatim>\<open>clear\<close>: size zero, both cached iterators default-constructed, the root reset.\<close>

definition clear :: "nat \<Rightarrow> 'a heap \<Rightarrow> bstree \<Rightarrow> ('a heap \<times> bstree) result" where
  "clear k h t =
     root_reset k h
       (t\<lparr>tree_size := 0, tree_begin := iterator_default, tree_end := iterator_default\<rparr>) None"

text \<open>
  \<^verbatim>\<open>set_iterators\<close>. \<^verbatim>\<open>this->_begin = l\<close> assigns a node pointer, so the state that
  \<^verbatim>\<open>_begin\<close> had is kept; \<^verbatim>\<open>_end\<close> is assigned a whole iterator.
\<close>

definition set_iterators :: "nat \<Rightarrow> 'a heap \<Rightarrow> bstree \<Rightarrow> bstree result" where
  "set_iterators k h t =
     (if tree_size t > 0 then
        rbind (descend_left k h (tree_root t)) (\<lambda>l.
        rbind (descend_right k h (tree_root t)) (\<lambda>r.
          Done (t\<lparr>tree_begin := assign_ptr (tree_begin t) l,
                  tree_end := \<lparr>iter = r, state = after_end\<rparr>\<rparr>)))
      else Done (t\<lparr>tree_begin := iterator None, tree_end := iterator None\<rparr>))"

text \<open>
  \<^verbatim>\<open>move_from\<close>: the walk over the source tree \<open>cw\<close> (\<^verbatim>\<open>copy_walk\<close>) and, in step with
  it, over the tree being built \<open>rw\<close> (\<^verbatim>\<open>result_walk\<close>).
\<close>

fun move_walk :: "nat \<Rightarrow> 'a heap \<Rightarrow> ptr \<Rightarrow> ptr \<Rightarrow> 'a heap result" where
  "move_walk k h None rw = Done h"
| "move_walk 0 h (Some c) rw = Timeout"
| "move_walk (Suc k) h (Some c) rw =
     rbind (deref h (Some c)) (\<lambda>cn.
     rbind (deref h rw) (\<lambda>rn.
       if left cn \<noteq> None \<and> left rn = None then
         rbind (deref h (left cn)) (\<lambda>ln.
           case node_create rw h (nvalue ln) of (h1, p) \<Rightarrow>
           rbind (update h1 rw (\<lambda>x. x\<lparr>left := p\<rparr>)) (\<lambda>h2.
           rbind (deref h2 (Some c)) (\<lambda>cn2.
           rbind (deref h2 rw) (\<lambda>rn2.
             move_walk k h2 (left cn2) (left rn2)))))
       else if right cn \<noteq> None \<and> right rn = None then
         rbind (deref h (right cn)) (\<lambda>ln.
           case node_create rw h (nvalue ln) of (h1, p) \<Rightarrow>
           rbind (update h1 rw (\<lambda>x. x\<lparr>right := p\<rparr>)) (\<lambda>h2.
           rbind (deref h2 (Some c)) (\<lambda>cn2.
           rbind (deref h2 rw) (\<lambda>rn2.
             move_walk k h2 (right cn2) (right rn2)))))
       else move_walk k h (parent cn) (parent rn)))"

definition move_from :: "nat \<Rightarrow> 'a heap \<Rightarrow> ptr \<Rightarrow> ('a heap \<times> ptr) result" where
  "move_from k h nh =
     (if nh = None then Done (h, None)
      else rbind (deref h nh) (\<lambda>rn.
             case node_create None h (nvalue rn) of (h1, r) \<Rightarrow>
             rbind (move_walk k h1 nh r) (\<lambda>h2. Done (h2, r))))"

text \<open>
  The move constructors \<^verbatim>\<open>bstree (bstree && other)\<close> and
  \<^verbatim>\<open>bstree (bstree && other, Allocator const &)\<close>: the new tree takes the members of
  \<open>other\<close>, whose owning pointer is null afterwards; the body then resets the size and
  the cached iterators of \<open>other\<close>. The result is (new tree, moved-from tree).
\<close>

definition move_construct :: "bstree \<Rightarrow> bstree \<times> bstree" where
  "move_construct other =
     (\<lparr>tree_root = tree_root other, tree_size = tree_size other,
       tree_begin = tree_begin other, tree_end = tree_end other\<rparr>,
      (root_release other)\<lparr>tree_size := 0, tree_begin := iterator_default,
                            tree_end := iterator_default\<rparr>)"

text \<open>\<^verbatim>\<open>std::swap\<close> of root and size and \<^verbatim>\<open>bstree_iterator::swap\<close> of both iterators.\<close>

definition swap_members :: "bstree \<Rightarrow> bstree \<Rightarrow> bstree \<times> bstree" where
  "swap_members a b =
     (a\<lparr>tree_root := tree_root b, tree_size := tree_size b,
        tree_begin := tree_begin b, tree_end := tree_end b\<rparr>,
      b\<lparr>tree_root := tree_root a, tree_size := tree_size a,
        tree_begin := tree_begin a, tree_end := tree_end a\<rparr>)"

text \<open>
  \<^verbatim>\<open>operator= (bstree && other)\<close>, for two distinct objects. \<open>propagate\<close> is
  \<^verbatim>\<open>propogate_on_move_assign::value\<close> and \<open>alloc_differ\<close> is
  \<^verbatim>\<open>this->_node_alloc != other._node_alloc\<close>. The result is (heap, this, other).
\<close>

definition move_assign ::
  "nat \<Rightarrow> bool \<Rightarrow> bool \<Rightarrow> 'a heap \<Rightarrow> bstree \<Rightarrow> bstree \<Rightarrow> ('a heap \<times> bstree \<times> bstree) result" where
  "move_assign k propagate alloc_differ h this other =
     (if propagate then
        rbind (clear k h this) (\<lambda>(h1, this1).
          case swap_members this1 other of (this2, other2) \<Rightarrow> Done (h1, this2, other2))
      else if alloc_differ then
        rbind (clear k h this) (\<lambda>(h1, this1).
        rbind (move_from k h1 (tree_root other)) (\<lambda>(h2, r).
        rbind (root_reset k h2 this1 r) (\<lambda>(h3, this2).
        rbind (set_iterators k h3 (this2\<lparr>tree_size := tree_size other\<rparr>)) (\<lambda>this3.
        rbind (clear k h3 other) (\<lambda>(h4, other1).
          Done (h4, this3, other1))))))
      else
        rbind (clear k h this) (\<lambda>(h1, this1).
          case swap_members this1 other of (this2, other2) \<Rightarrow> Done (h1, this2, other2)))"

text \<open>
  Move assignment of a tree to itself: \<open>this\<close> and \<open>other\<close> are one object with one
  allocator, so the members are cleared and then swapped with themselves.
\<close>

definition move_assign_self :: "nat \<Rightarrow> 'a heap \<Rightarrow> bstree \<Rightarrow> ('a heap \<times> bstree) result" where
  "move_assign_self k h this =
     rbind (clear k h this) (\<lambda>(h1, this1).
       case swap_members this1 this1 of (this2, other2) \<Rightarrow> Done (h1, other2))"


section \<open>Sequences of operations\<close>

text \<open>
  A client that starts from the empty tree and calls \<^verbatim>\<open>insert (value)\<close> and
  \<^verbatim>\<open>erase (key)\<close> in some order. The first fault or timeout ends the run.
\<close>

datatype 'a op = Insert 'a | Erase 'a

fun apply_op ::
  "nat \<Rightarrow> ('a \<Rightarrow> 'a \<Rightarrow> bool) \<Rightarrow> 'a heap \<times> bstree \<Rightarrow> 'a op \<Rightarrow> ('a heap \<times> bstree) result" where
  "apply_op k cmp (h, t) (Insert v) =
     rbind (insert_bst k cmp h t v) (\<lambda>(h1, t1, r). Done (h1, t1))"
| "apply_op k cmp (h, t) (Erase v) =
     rbind (erase_key k cmp h t v) (\<lambda>(h1, t1, r). Done (h1, t1))"

fun run ::
  "nat \<Rightarrow> ('a \<Rightarrow> 'a \<Rightarrow> bool) \<Rightarrow> 'a heap \<times> bstree \<Rightarrow> 'a op list \<Rightarrow> ('a heap \<times> bstree) result" where
  "run k cmp s [] = Done s"
| "run k cmp s (x # xs) = rbind (apply_op k cmp s x) (\<lambda>s1. run k cmp s1 xs)"

definition from_empty ::
  "nat \<Rightarrow> ('a \<Rightarrow> 'a \<Rightarrow> bool) \<Rightarrow> 'a op list \<Rightarrow> ('a heap \<times> bstree) result" where
  "from_empty k cmp ops = run k cmp ([], bstree_init) ops"

section \<open>Iterating over a tree\<close>

text \<open>
  The client loop \<^verbatim>\<open>for (it = first; it != last; ++it)\<close> that reads \<^verbatim>\<open>*it\<close> at each
  step, as \<^verbatim>\<open>std::equal (lhs.begin (), lhs.end (), rhs.begin ())\<close> in the tree's
  \<^verbatim>\<open>operator==\<close> runs it. The result is the list of the values visited.
\<close>

fun traverse :: "nat \<Rightarrow> 'a heap \<Rightarrow> bstree_iterator \<Rightarrow> bstree_iterator \<Rightarrow> 'a list result" where
  "traverse 0 h it lst = Timeout"
| "traverse (Suc k) h it lst =
     (if iter_eq it lst then Done []
      else rbind (deref h (iter it)) (\<lambda>nd.
           rbind (increment k h it) (\<lambda>it1.
           rbind (traverse k h it1 lst) (\<lambda>vs. Done (nvalue nd # vs)))))"

text \<open>\<^verbatim>\<open>operator*\<close>: the value of the node under the cursor.\<close>

definition star :: "'a heap \<Rightarrow> bstree_iterator \<Rightarrow> 'a result" where
  "star h it = rbind (deref h (iter it)) (\<lambda>nd. Done (nvalue nd))"


section \<open>Trees in the heap\<close>

text \<open>
  The shape of a tree in the heap: each node with its address and value. \<open>laid_out h p q T\<close>
  says that the pointer \<open>p\<close> leads to a subtree of shape \<open>T\<close> whose root has the parent
  link \<open>q\<close>, every child pointing back to its parent.
\<close>

datatype 'a shape = Leaf | Node "'a shape" addr 'a "'a shape"

fun laid_out :: "'a heap \<Rightarrow> ptr \<Rightarrow> ptr \<Rightarrow> 'a shape \<Rightarrow> bool" where
  "laid_out h p q Leaf = (p = None)"
| "laid_out h p q (Node l a v r) =
     (p = Some a \<and>
      (case cell h a of
         None \<Rightarrow> False
       | Some nd \<Rightarrow>
           nvalue nd = v \<and> parent nd = q
           \<and> laid_out h (left nd) (Some a) l \<and> laid_out h (right nd) (Some a) r))"

text \<open>The same without the parent links: only the child links and the values count.\<close>

fun linked :: "'a heap \<Rightarrow> ptr \<Rightarrow> 'a shape \<Rightarrow> bool" where
  "linked h p Leaf = (p = None)"
| "linked h p (Node l a v r) =
     (p = Some a \<and>
      (case cell h a of
         None \<Rightarrow> False
       | Some nd \<Rightarrow> nvalue nd = v \<and> linked h (left nd) l \<and> linked h (right nd) r))"

fun keys :: "'a shape \<Rightarrow> 'a list" where
  "keys Leaf = []"
| "keys (Node l a v r) = keys l @ v # keys r"

fun addrs :: "'a shape \<Rightarrow> addr list" where
  "addrs Leaf = []"
| "addrs (Node l a v r) = addrs l @ a # addrs r"

fun depth :: "'a shape \<Rightarrow> nat" where
  "depth Leaf = 0"
| "depth (Node l a v r) = Suc (max (depth l) (depth r))"

text \<open>The search-tree ordering with respect to the comparator.\<close>

fun ordered :: "('a \<Rightarrow> 'a \<Rightarrow> bool) \<Rightarrow> 'a shape \<Rightarrow> bool" where
  "ordered cmp Leaf = True"
| "ordered cmp (Node l a v r) =
     (ordered cmp l \<and> ordered cmp r
      \<and> list_all (\<lambda>x. cmp x v) (keys l) \<and> list_all (\<lambda>x. cmp v x) (keys r))"

text \<open>
  Two keys are equivalent when neither compares less than the other; a strict weak order
  is irreflexive and transitive, and so is its equivalence.
\<close>

definition equiv_keys :: "('a \<Rightarrow> 'a \<Rightarrow> bool) \<Rightarrow> 'a \<Rightarrow> 'a \<Rightarrow> bool" where
  "equiv_keys cmp x y = (\<not> cmp x y \<and> \<not> cmp y x)"

definition strict_weak_order :: "('a \<Rightarrow> 'a \<Rightarrow> bool) \<Rightarrow> bool" where
  "strict_weak_order cmp =
     ((\<forall>x. \<not> cmp x x)
      \<and> (\<forall>x y z. cmp x y \<longrightarrow> cmp y z \<longrightarrow> cmp x z)
      \<and> (\<forall>x y z. equiv_keys cmp x y \<longrightarrow> equiv_keys cmp y z \<longrightarrow> equiv_keys cmp x z))"

text \<open>
  A search tree: the root pointer leads, over child links, to a tree in the heap whose keys
  are ordered, and the size member is the number of nodes. The descent of a lookup or an
  insertion reads nothing else.
\<close>

definition search_tree :: "('a \<Rightarrow> 'a \<Rightarrow> bool) \<Rightarrow> 'a heap \<Rightarrow> bstree \<Rightarrow> 'a shape \<Rightarrow> bool" where
  "search_tree cmp h t T =
     (linked h (tree_root t) T \<and> ordered cmp T \<and> unat (tree_size t) = length (addrs T))"

text \<open>
  A tree object that is well laid out: the root pointer leads to a tree in the heap, with a
  null parent link at the root, every parent link the inverse of a child link, and distinct
  node addresses; the size member is the number of nodes.
\<close>

definition well_laid :: "'a heap \<Rightarrow> bstree \<Rightarrow> 'a shape \<Rightarrow> bool" where
  "well_laid h t T =
     (laid_out h (tree_root t) None T \<and> distinct (addrs T)
      \<and> unat (tree_size t) = length (addrs T))"

text \<open>
  What \<^verbatim>\<open>tree_delete\<close> leaves behind when it has freed the nodes \<open>as\<close> of a subtree with
  root \<open>a\<close> and parent link \<open>q\<close>: those cells are free, the parent's link to \<open>a\<close> is null,
  and every other cell is as before.
\<close>

definition unlink :: "addr \<Rightarrow> 'a node \<Rightarrow> 'a node" where
  "unlink a pn =
     (if left pn = Some a then pn\<lparr>left := None\<rparr>
      else if right pn = Some a then pn\<lparr>right := None\<rparr> else pn)"

definition freed :: "'a heap \<Rightarrow> 'a heap \<Rightarrow> addr list \<Rightarrow> ptr \<Rightarrow> addr \<Rightarrow> bool" where
  "freed h h' as q a =
     (length h' = length h
      \<and> (\<forall>b\<in>set as. cell h' b = None)
      \<and> (\<forall>b. b \<notin> set as \<longrightarrow> Some b \<noteq> q \<longrightarrow> cell h' b = cell h b)
      \<and> (case q of None \<Rightarrow> True | Some pa \<Rightarrow> cell h' pa = map_option (unlink a) (cell h pa)))"

section \<open>Block sort\<close>

text \<open>
  \<^verbatim>\<open>blocksort (first, last, comp)\<close> of \<^verbatim>\<open>sorting/blocksort.hpp\<close>. The range
  \<open>[first, last)\<close> is a list; an iterator into it is an index, and reading or writing at
  an index that is not below the length of the list is a fault.
\<close>

definition read_at :: "'a list \<Rightarrow> nat \<Rightarrow> 'a result" where
  "read_at xs i = (if i < length xs then Done (xs ! i) else Fault OutOfBounds)"

definition write_at :: "'a list \<Rightarrow> nat \<Rightarrow> 'a \<Rightarrow> 'a list result" where
  "write_at xs i v = (if i < length xs then Done (xs[i := v]) else Fault OutOfBounds)"

definition curia_gap_sequence :: "nat list" where
  "curia_gap_sequence = [23, 10, 4, 1]"

text \<open>
  The innermost loop of \<^verbatim>\<open>shellsort\<close>,
  \<^verbatim>\<open>for (j = i; j >= g && comp (tmp, index [j - g]); j -= g) index [j] = index [j - g];\<close>
  with \<open>first\<close> the index at which the block starts. It returns the list and the final \<open>j\<close>.
  With a gap of zero the loop can only be left at once or never.
\<close>

function shell_shift ::
  "('a \<Rightarrow> 'a \<Rightarrow> bool) \<Rightarrow> nat \<Rightarrow> nat \<Rightarrow> 'a \<Rightarrow> nat \<Rightarrow> 'a list \<Rightarrow> ('a list \<times> nat) result" where
  "shell_shift cmp first g tmp j xs =
     (if j \<ge> g then
        rbind (read_at xs (first + (j - g))) (\<lambda>y.
          if cmp tmp y then
            (if g = 0 then Timeout
             else rbind (write_at xs (first + j) y) (\<lambda>xs1.
                    shell_shift cmp first g tmp (j - g) xs1))
          else Done (xs, j))
      else Done (xs, j))"
  by pat_completeness auto
termination
  by (relation "measure (\<lambda>(cmp, first, g, tmp, j, xs). j)") auto

text \<open>\<^verbatim>\<open>for (std::size_t i = g; i < length; ++i)\<close> with its body.\<close>

function shell_pass ::
  "('a \<Rightarrow> 'a \<Rightarrow> bool) \<Rightarrow> nat \<Rightarrow> nat \<Rightarrow> nat \<Rightarrow> nat \<Rightarrow> 'a list \<Rightarrow> 'a list result" where
  "shell_pass cmp first len g i xs =
     (if i < len then
        rbind (read_at xs (first + i)) (\<lambda>tmp.
        rbind (shell_shift cmp first g tmp i xs) (\<lambda>(xs1, j).
        rbind (write_at xs1 (first + j) tmp) (\<lambda>xs2.
          shell_pass cmp first len g (i + 1) xs2)))
      else Done xs)"
  by pat_completeness auto
termination
  by (relation "measure (\<lambda>(cmp, first, len, g, i, xs). len - i)") auto

fun shell_gaps ::
  "('a \<Rightarrow> 'a \<Rightarrow> bool) \<Rightarrow> nat \<Rightarrow> nat \<Rightarrow> nat list \<Rightarrow> 'a list \<Rightarrow> 'a list result" where
  "shell_gaps cmp first len [] xs = Done xs"
| "shell_gaps cmp first len (g # gs) xs =
     rbind (shell_pass cmp first len g g xs) (\<lambda>xs1. shell_gaps cmp first len gs xs1)"

text \<open>The file-local \<^verbatim>\<open>shellsort (first, last, comp)\<close> over the gaps 23, 10, 4, 1, on the block \<open>[lo, hi)\<close>.\<close>

definition shellsort :: "('a \<Rightarrow> 'a \<Rightarrow> bool) \<Rightarrow> nat \<Rightarrow> nat \<Rightarrow> 'a list \<Rightarrow> 'a list result" where
  "shellsort cmp lo hi xs = shell_gaps cmp lo (hi - lo) curia_gap_sequence xs"

text \<open>
  \<^verbatim>\<open>rl_pow2\<close>, the power of two not above the length, computed on 64 bits by smearing the
  highest set bit to the right.
\<close>

definition rl_pow2 :: "64 word \<Rightarrow> 64 word" where
  "rl_pow2 rangelen =
     (let rl1 = or rangelen (drop_bit 1 rangelen);
          rl2 = or rl1 (drop_bit 2 rl1);
          rl3 = or rl2 (drop_bit 4 rl2);
          rl4 = or rl3 (drop_bit 8 rl3);
          rl5 = or rl4 (drop_bit 16 rl4);
          rl6 = or rl5 (drop_bit 32 rl5)
      in rl6 - drop_bit 1 rl6)"

text \<open>
  \<^verbatim>\<open>static_cast <std::size_t> (b * scale)\<close> with \<^verbatim>\<open>scale = rangelen / rl_pow2\<close>. The
  divisor is a power of two, so the quotient is exact in double precision, and so is the
  product as long as it fits 53 bits; the truncated product is then \<open>b * rangelen div rl_pow2\<close>.
\<close>

definition scaled :: "nat \<Rightarrow> nat \<Rightarrow> nat \<Rightarrow> nat" where
  "scaled rangelen p b = (b * rangelen) div p"

text \<open>\<^verbatim>\<open>for (std::size_t b = 0; b < rl_pow2; b += 16)\<close>: sort each block.\<close>

function sort_blocks ::
  "('a \<Rightarrow> 'a \<Rightarrow> bool) \<Rightarrow> nat \<Rightarrow> nat \<Rightarrow> nat \<Rightarrow> 'a list \<Rightarrow> 'a list result" where
  "sort_blocks cmp rangelen p b xs =
     (if b < p then
        rbind (shellsort cmp (scaled rangelen p b) (scaled rangelen p (b + 16)) xs) (\<lambda>xs1.
          sort_blocks cmp rangelen p (b + 16) xs1)
      else Done xs)"
  by pat_completeness auto
termination
  by (relation "measure (\<lambda>(cmp, rangelen, p, b, xs). p - b)") auto

text \<open>
  \<^verbatim>\<open>std::rotate (s, m, e)\<close> and \<^verbatim>\<open>std::inplace_merge (s, m, e, comp)\<close> on the segment
  \<open>[s, e)\<close> of the list: the rotation brings \<open>[m, e)\<close> in front of \<open>[s, m)\<close>; the merge
  takes from the right run only an element that compares less than the head of the left run.
\<close>

definition segment :: "'a list \<Rightarrow> nat \<Rightarrow> nat \<Rightarrow> 'a list" where
  "segment xs s e = take (e - s) (drop s xs)"

definition put_segment :: "'a list \<Rightarrow> nat \<Rightarrow> nat \<Rightarrow> 'a list \<Rightarrow> 'a list" where
  "put_segment xs s e ys = take s xs @ ys @ drop e xs"

definition rotate_range :: "'a list \<Rightarrow> nat \<Rightarrow> nat \<Rightarrow> nat \<Rightarrow> 'a list result" where
  "rotate_range xs s m e =
     (if s \<le> m \<and> m \<le> e \<and> e \<le> length xs
      then Done (put_segment xs s e (segment xs m e @ segment xs s m))
      else Fault OutOfBounds)"

fun merge_runs :: "('a \<Rightarrow> 'a \<Rightarrow> bool) \<Rightarrow> 'a list \<Rightarrow> 'a list \<Rightarrow> 'a list" where
  "merge_runs cmp [] ys = ys"
| "merge_runs cmp (x # xs) [] = x # xs"
| "merge_runs cmp (x # xs) (y # ys) =
     (if cmp y x then y # merge_runs cmp (x # xs) ys else x # merge_runs cmp xs (y # ys))"

definition inplace_merge ::
  "('a \<Rightarrow> 'a \<Rightarrow> bool) \<Rightarrow> 'a list \<Rightarrow> nat \<Rightarrow> nat \<Rightarrow> nat \<Rightarrow> 'a list result" where
  "inplace_merge cmp xs s m e =
     (if s \<le> m \<and> m \<le> e \<and> e \<le> length xs
      then Done (put_segment xs s e (merge_runs cmp (segment xs s m) (segment xs m e)))
      else Fault OutOfBounds)"

text \<open>
  The inner loop \<^verbatim>\<open>for (merge = 0; merge < rl_pow2; merge += len * 2)\<close> and the outer loop
  \<^verbatim>\<open>for (len = 16; len < rl_pow2; len *= 2)\<close>. A step of zero would never end.
\<close>

function merge_pass ::
  "('a \<Rightarrow> 'a \<Rightarrow> bool) \<Rightarrow> nat \<Rightarrow> nat \<Rightarrow> nat \<Rightarrow> nat \<Rightarrow> 'a list \<Rightarrow> 'a list result" where
  "merge_pass cmp rangelen p len merge xs =
     (if merge < p then
        (if len = 0 then Timeout
         else
           let range_start = scaled rangelen p merge;
               range_mid = scaled rangelen p (merge + len);
               range_end = scaled rangelen p (merge + len * 2)
           in (if range_end = 0 then Fault OutOfBounds
               else
                 rbind (read_at xs (range_end - 1)) (\<lambda>lastv.
                 rbind (read_at xs range_start) (\<lambda>firstv.
                 rbind (if cmp lastv firstv then rotate_range xs range_start range_mid range_end
                        else if range_mid = 0 then Fault OutOfBounds
                        else
                          rbind (read_at xs range_mid) (\<lambda>midv.
                          rbind (read_at xs (range_mid - 1)) (\<lambda>premidv.
                            if cmp midv premidv
                            then inplace_merge cmp xs range_start range_mid range_end
                            else Done xs))) (\<lambda>xs1.
                   merge_pass cmp rangelen p len (merge + len * 2) xs1)))))
      else Done xs)"
  by pat_completeness auto
termination
  by (relation "measure (\<lambda>(cmp, rangelen, p, len, merge, xs). p - merge)") auto

function merge_passes ::
  "('a \<Rightarrow> 'a \<Rightarrow> bool) \<Rightarrow> nat \<Rightarrow> nat \<Rightarrow> nat \<Rightarrow> 'a list \<Rightarrow> 'a list result" where
  "merge_passes cmp rangelen p len xs =
     (if len < p then
        (if len = 0 then Timeout
         else rbind (merge_pass cmp rangelen p len 0 xs) (\<lambda>xs1.
                merge_passes cmp rangelen p (len * 2) xs1))
      else Done xs)"
  by pat_completeness auto
termination
  by (relation "measure (\<lambda>(cmp, rangelen, p, len, xs). p - len)") auto

definition blocksort :: "('a \<Rightarrow> 'a \<Rightarrow> bool) \<Rightarrow> 'a list \<Rightarrow> 'a list result" where
  "blocksort cmp xs =
     (let rangelen = length xs;
          p = unat (rl_pow2 (of_nat rangelen))
      in rbind (sort_blocks cmp rangelen p 0 xs) (\<lambda>xs1.
           merge_passes cmp rangelen p 16 xs1))"


section \<open>Basic facts\<close>

lemma rbind_Done_iff: "rbind m f = Done r \<longleftrightarrow> (\<exists>x. m = Done x \<and> f x = Done r)"
  by (cases m) auto

text \<open>The ascent of \<^verbatim>\<open>operator--\<close> has no exit: whatever the heap, it never returns.\<close>

lemma decr_ascend_never_returns: "decr_ascend k h it n this \<noteq> Done r"
  by (induction k arbitrary: it n this) (auto simp: rbind_Done_iff split: if_splits)

lemma decr_ascend_at_root:
  "(case deref h it of Done itn \<Rightarrow> parent itn = None | _ \<Rightarrow> False)
     \<Longrightarrow> decr_ascend k h it n this = Timeout"
  by (induction k arbitrary: this) (auto split: result.splits)

lemma decr_ascend_at_right_child:
  "(case deref h it of
      Done itn \<Rightarrow>
        (case deref h (parent itn) of
           Done pn \<Rightarrow> parent itn \<noteq> None \<and> right pn = it
         | _ \<Rightarrow> False)
    | _ \<Rightarrow> False)
     \<Longrightarrow> decr_ascend k h it n this = Timeout"
  by (induction k arbitrary: n) (auto split: result.splits)

text \<open>A node that is its own parent keeps the ascent of \<^verbatim>\<open>operator++\<close> busy for ever.\<close>

lemma incr_ascend_self_parent:
  "(case deref h it of
      Done itn \<Rightarrow> it \<noteq> None \<and> parent itn = it \<and> left itn \<noteq> it
    | _ \<Rightarrow> False)
     \<Longrightarrow> incr_ascend k h it n st = Timeout"
  by (induction k) (auto split: result.splits)

text \<open>
  An after-end iterator is not moved by \<^verbatim>\<open>operator++\<close>, so a loop that waits for it to
  become equal to a different iterator does not end.
\<close>

lemma traverse_stuck_after_end:
  "state it = after_end \<Longrightarrow> iter it \<noteq> None \<Longrightarrow> \<not> iter_eq it lst
     \<Longrightarrow> (case deref h (iter it) of Done nd \<Rightarrow> True | _ \<Rightarrow> False)
     \<Longrightarrow> traverse k h it lst = Timeout"
  by (induction k) (auto simp: increment_def split: result.splits)

section \<open>Concrete runs\<close>

lemma run_insert_2_1:
  "from_empty 2 (<) [Insert (2::nat), Insert 1] =
     Done ([Some \<lparr>nvalue = 2, left = Some 1, right = None, parent = None\<rparr>,
            Some \<lparr>nvalue = 1, left = None, right = None, parent = Some 0\<rparr>],
           \<lparr>tree_root = Some 0, tree_size = 2,
            tree_begin = \<lparr>iter = Some 1, state = valid\<rparr>,
            tree_end = \<lparr>iter = Some 0, state = after_end\<rparr>\<rparr>)"
  by code_simp

lemma run_insert_1_2:
  "from_empty 2 (<) [Insert (1::nat), Insert 2] =
     Done ([Some \<lparr>nvalue = 1, left = None, right = Some 1, parent = None\<rparr>,
            Some \<lparr>nvalue = 2, left = None, right = None, parent = Some 0\<rparr>],
           \<lparr>tree_root = Some 0, tree_size = 2,
            tree_begin = \<lparr>iter = Some 0, state = valid\<rparr>,
            tree_end = \<lparr>iter = Some 0, state = after_end\<rparr>\<rparr>)"
  by code_simp

lemma run_erase_max_with_left_child:
  "from_empty 4 (<) [Insert (1::nat), Insert 3, Insert 2, Erase 3] =
     Done ([Some \<lparr>nvalue = 1, left = None, right = Some 2, parent = None\<rparr>, None,
            Some \<lparr>nvalue = 2, left = None, right = None, parent = Some 0\<rparr>],
           \<lparr>tree_root = Some 0, tree_size = 2,
            tree_begin = \<lparr>iter = Some 0, state = valid\<rparr>,
            tree_end = \<lparr>iter = Some 0, state = after_end\<rparr>\<rparr>)"
  by code_simp

lemma run_erase_two_children:
  "from_empty 4 (<) [Insert (5::nat), Insert 3, Insert 1, Insert 4, Erase 3] =
     Done ([Some \<lparr>nvalue = 5, left = Some 2, right = None, parent = None\<rparr>, None,
            Some \<lparr>nvalue = 1, left = None, right = Some 3, parent = Some 2\<rparr>,
            Some \<lparr>nvalue = 4, left = None, right = None, parent = Some 2\<rparr>],
           \<lparr>tree_root = Some 0, tree_size = 3,
            tree_begin = \<lparr>iter = Some 2, state = valid\<rparr>,
            tree_end = \<lparr>iter = Some 0, state = after_end\<rparr>\<rparr>)"
  by code_simp

lemma run_insert_5_2_4_3:
  "from_empty 4 (<) [Insert (5::nat), Insert 2, Insert 4, Insert 3] =
     Done ([Some \<lparr>nvalue = 5, left = Some 1, right = None, parent = None\<rparr>,
            Some \<lparr>nvalue = 2, left = None, right = Some 2, parent = Some 0\<rparr>,
            Some \<lparr>nvalue = 4, left = Some 3, right = None, parent = Some 1\<rparr>,
            Some \<lparr>nvalue = 3, left = None, right = None, parent = Some 2\<rparr>],
           \<lparr>tree_root = Some 0, tree_size = 4,
            tree_begin = \<lparr>iter = Some 1, state = valid\<rparr>,
            tree_end = \<lparr>iter = Some 0, state = after_end\<rparr>\<rparr>)"
  by code_simp

section \<open>Strict weak orders and the descent\<close>

lemma swo_less_equiv:
  assumes "strict_weak_order cmp" "cmp w u" "equiv_keys cmp v w"
  shows "cmp v u"
proof (rule ccontr)
  assume n: "\<not> cmp v u"
  from assms(1) have tr: "\<And>x y z. cmp x y \<Longrightarrow> cmp y z \<Longrightarrow> cmp x z"
    and etr: "\<And>x y z. equiv_keys cmp x y \<Longrightarrow> equiv_keys cmp y z \<Longrightarrow> equiv_keys cmp x z"
    and irr: "\<And>x. \<not> cmp x x"
    unfolding strict_weak_order_def by blast+
  show False
  proof (cases "cmp u v")
    case True
    with assms(2) have "cmp w v" by (rule tr)
    with assms(3) show False by (simp add: equiv_keys_def)
  next
    case False
    with n have "equiv_keys cmp v u" by (simp add: equiv_keys_def)
    moreover from assms(3) have "equiv_keys cmp w v" by (simp add: equiv_keys_def)
    ultimately have "equiv_keys cmp w u" by (rule etr[rotated])
    with assms(2) show False by (simp add: equiv_keys_def)
  qed
qed

lemma swo_equiv_less:
  assumes "strict_weak_order cmp" "cmp u w" "equiv_keys cmp v w"
  shows "cmp u v"
proof (rule ccontr)
  assume n: "\<not> cmp u v"
  from assms(1) have tr: "\<And>x y z. cmp x y \<Longrightarrow> cmp y z \<Longrightarrow> cmp x z"
    and etr: "\<And>x y z. equiv_keys cmp x y \<Longrightarrow> equiv_keys cmp y z \<Longrightarrow> equiv_keys cmp x z"
    unfolding strict_weak_order_def by blast+
  show False
  proof (cases "cmp v u")
    case True
    from True assms(2) have "cmp v w" by (rule tr)
    with assms(3) show False by (simp add: equiv_keys_def)
  next
    case False
    with n have "equiv_keys cmp u v" by (simp add: equiv_keys_def)
    from this assms(3) have "equiv_keys cmp u w" by (rule etr)
    with assms(2) show False by (simp add: equiv_keys_def)
  qed
qed

lemma swo_asym: "strict_weak_order cmp \<Longrightarrow> cmp x y \<Longrightarrow> \<not> cmp y x"
  unfolding strict_weak_order_def by blast

lemma length_keys_addrs: "length (keys T) = length (addrs T)"
  by (induction T) auto

lemma linked_child_Leaf: "linked h x S \<Longrightarrow> (x = None \<longleftrightarrow> S = Leaf)"
  by (cases S) auto

lemma laid_out_linked: "laid_out h p q T \<Longrightarrow> linked h p T"
  by (induction T arbitrary: p q) (auto split: option.splits)

text \<open>
  The descent of \<^verbatim>\<open>insert\<close> for a key that has an equivalent in the tree stops at the
  node of that equivalent, and changes nothing.
\<close>

lemma insert_descend_present:
  assumes swo: "strict_weak_order cmp"
  shows "linked h p T \<Longrightarrow> ordered cmp T \<Longrightarrow> \<exists>w\<in>set (keys T). equiv_keys cmp v w
     \<Longrightarrow> depth T \<le> k
     \<Longrightarrow> \<exists>a nd. insert_descend k cmp h t p v = Done (h, t, iterator (Some a), False)
           \<and> a \<in> set (addrs T) \<and> cell h a = Some nd \<and> equiv_keys cmp v (nvalue nd)"
proof (induction T arbitrary: p k)
  case Leaf
  then show ?case by simp
next
  case (Node l a u r)
  from Node.prems(4) obtain k1 where k: "k = Suc k1" and dl: "depth l \<le> k1" and dr: "depth r \<le> k1"
    by (cases k) auto
  from Node.prems(1) obtain nd where p: "p = Some a" and c: "cell h a = Some nd"
    and nv: "nvalue nd = u" and ll: "linked h (left nd) l" and lr: "linked h (right nd) r"
    by (auto split: option.splits)
  have d: "deref h (Some a) = Done nd" using c by (simp add: deref_def)
  from Node.prems(2) have ol: "ordered cmp l" and orr: "ordered cmp r"
    and al: "\<forall>x\<in>set (keys l). cmp x u" and ar: "\<forall>x\<in>set (keys r). cmp u x"
    by (auto simp: list_all_iff)
  from Node.prems(3) consider
    (here) "equiv_keys cmp v u" | (lft) "\<exists>w\<in>set (keys l). equiv_keys cmp v w"
    | (rgt) "\<exists>w\<in>set (keys r). equiv_keys cmp v w"
    by auto
  then show ?case
  proof cases
    case here
    then show ?thesis using p c nv d k by (auto simp: equiv_keys_def)
  next
    case lft
    then obtain w where w: "w \<in> set (keys l)" "equiv_keys cmp v w" by blast
    with al have "cmp w u" by blast
    with swo w have lt: "cmp v u" by (blast intro: swo_less_equiv)
    from w have "l \<noteq> Leaf" by (cases l) auto
    with linked_child_Leaf [OF ll] have nn: "left nd \<noteq> None" by simp
    from Node.IH(1) [OF ll ol lft dl] obtain a' nd' where
      "insert_descend k1 cmp h t (left nd) v = Done (h, t, iterator (Some a'), False)"
      "a' \<in> set (addrs l)" "cell h a' = Some nd'" "equiv_keys cmp v (nvalue nd')"
      by blast
    then show ?thesis using p d k nv lt nn by auto
  next
    case rgt
    then obtain w where w: "w \<in> set (keys r)" "equiv_keys cmp v w" by blast
    with ar have "cmp u w" by blast
    with swo w have gt: "cmp u v" by (blast intro: swo_equiv_less)
    with swo have ngt: "\<not> cmp v u" by (blast dest: swo_asym)
    from w have "r \<noteq> Leaf" by (cases r) auto
    with linked_child_Leaf [OF lr] have nn: "right nd \<noteq> None" by simp
    from Node.IH(2) [OF lr orr rgt dr] obtain a' nd' where
      "insert_descend k1 cmp h t (right nd) v = Done (h, t, iterator (Some a'), False)"
      "a' \<in> set (addrs r)" "cell h a' = Some nd'" "equiv_keys cmp v (nvalue nd')"
      by blast
    then show ?thesis using p d k nv gt ngt nn by auto
  qed
qed

section \<open>Heap cells and layouts\<close>

lemma cell_update: "cell (h[a := x]) b = (if b = a \<and> a < length h then x else cell h b)"
  by (simp add: cell_def)

lemma cell_Some_lt: "cell h a = Some n \<Longrightarrow> a < length h"
  by (simp add: cell_def split: if_splits)

lemma deref_Some: "cell h a = Some n \<Longrightarrow> deref h (Some a) = Done n"
  by (simp add: deref_def)

lemma update_Some: "cell h a = Some n \<Longrightarrow> update h (Some a) f = Done (h[a := Some (f n)])"
  by (simp add: update_def)

lemma deallocate_Some: "cell h a = Some n \<Longrightarrow> deallocate h (Some a) = Done (h[a := None])"
  by (simp add: deallocate_def)

lemma destroy_Some: "cell h a = Some n \<Longrightarrow> destroy h (Some a) = Done h"
  by (simp add: destroy_def deref_def)

lemma update_same: "cell h p = Some pn \<Longrightarrow> h[p := Some pn] = h"
  by (metis cell_def list_update_id option.distinct(1))

lemma laid_out_frame:
  "(\<forall>b\<in>set (addrs T). cell h' b = cell h b) \<Longrightarrow> laid_out h' p q T = laid_out h p q T"
  by (induction T arbitrary: p q) (auto split: option.splits)

section \<open>Deleting a whole tree\<close>

text \<open>One turn of the loop of \<^verbatim>\<open>tree_delete\<close> at a node without children.\<close>

lemma tree_delete_leaf:
  assumes c: "cell h a = Some nd" and l: "left nd = None" and r: "right nd = None"
    and q: "parent nd = q"
    and pa: "case q of None \<Rightarrow> True | Some pa \<Rightarrow> pa \<noteq> a \<and> cell h pa \<noteq> None"
  shows "\<exists>h'. (\<forall>k. tree_delete (Suc k) h (Some a) = tree_delete k h' q) \<and> freed h h' [a] q a"
proof (cases q)
  case None
  let ?h = "h[a := None]"
  have "tree_delete (Suc k) h (Some a) = tree_delete k ?h q" for k
    using c l r q None by (simp add: deref_Some destroy_Some deallocate_Some)
  moreover have "freed h ?h [a] q a"
    using None c by (auto simp: freed_def cell_update dest: cell_Some_lt)
  ultimately show ?thesis by blast
next
  case (Some p)
  with pa obtain pn where pn: "cell h p = Some pn" and ne: "p \<noteq> a" by auto
  let ?h1 = "h[p := Some (unlink a pn)]"
  have c1: "cell ?h1 a = Some nd" using c ne by (simp add: cell_update)
  let ?h = "?h1[a := None]"
  have u: "(if Some a = left pn then update h (Some p) (\<lambda>x. x\<lparr>left := None\<rparr>)
            else if Some a = right pn then update h (Some p) (\<lambda>x. x\<lparr>right := None\<rparr>)
            else Done h) = Done ?h1"
    using pn by (auto simp: update_Some unlink_def update_same)
  have "tree_delete (Suc k) h (Some a) = tree_delete k ?h q" for k
  proof -
    have "tree_delete (Suc k) h (Some a) =
        rbind (if Some a = left pn then update h (Some p) (\<lambda>x. x\<lparr>left := None\<rparr>)
               else if Some a = right pn then update h (Some p) (\<lambda>x. x\<lparr>right := None\<rparr>)
               else Done h) (\<lambda>h1.
        rbind (destroy h1 (Some a)) (\<lambda>h2.
        rbind (deallocate h2 (Some a)) (\<lambda>h3. tree_delete k h3 q)))"
    using c l r q Some pn by (simp add: deref_Some)
  also have "\<dots> = tree_delete k ?h q"
    unfolding u using c1 by (simp add: destroy_Some deallocate_Some)
    finally show ?thesis .
  qed
  moreover have "freed h ?h [a] q a"
    using Some c pn ne by (auto simp: freed_def cell_update dest: cell_Some_lt)
  ultimately show ?thesis by blast
qed


lemma laid_out_NodeE:
  assumes "laid_out h (Some a) q T"
  obtains l v r nd where "T = Node l a v r" "cell h a = Some nd" "nvalue nd = v"
    "parent nd = q" "laid_out h (left nd) (Some a) l" "laid_out h (right nd) (Some a) r"
  using assms by (cases T) (auto split: option.splits)

lemma laid_out_root_addr: "laid_out h (Some b) q T \<Longrightarrow> b \<in> set (addrs T)"
  by (cases T) auto

lemma tree_delete_descend_left:
  "cell h a = Some nd \<Longrightarrow> left nd \<noteq> None
     \<Longrightarrow> tree_delete (Suc k) h (Some a) = tree_delete k h (left nd)"
  by (simp add: deref_Some)

lemma tree_delete_descend_right:
  "cell h a = Some nd \<Longrightarrow> left nd = None \<Longrightarrow> right nd \<noteq> None
     \<Longrightarrow> tree_delete (Suc k) h (Some a) = tree_delete k h (right nd)"
  by (simp add: deref_Some)

text \<open>
  Started at the root \<open>a\<close> of a subtree with \<open>n\<close> nodes, the loop of \<^verbatim>\<open>tree_delete\<close>
  arrives after \<open>2 n - 1\<close> turns at the parent link \<open>q\<close> of \<open>a\<close>, with the subtree freed.
\<close>

lemma tree_delete_segment:
  "laid_out h (Some a) q T \<Longrightarrow> distinct (addrs T)
     \<Longrightarrow> (case q of None \<Rightarrow> True | Some pa \<Rightarrow> pa \<notin> set (addrs T) \<and> cell h pa \<noteq> None)
     \<Longrightarrow> \<exists>h'. (\<forall>k. tree_delete (2 * length (addrs T) - 1 + k) h (Some a) = tree_delete k h' q)
            \<and> freed h h' (addrs T) q a"
proof (induction "length (addrs T)" arbitrary: T h a q rule: less_induct)
  case less
  from less.prems(1) obtain l v r nd where T: "T = Node l a v r" and c: "cell h a = Some nd"
    and nv: "nvalue nd = v" and pq: "parent nd = q"
    and ll: "laid_out h (left nd) (Some a) l" and lr: "laid_out h (right nd) (Some a) r"
    by (rule laid_out_NodeE)
  from less.prems(2) T have dl: "distinct (addrs l)" and dr: "distinct (addrs r)"
    and al: "a \<notin> set (addrs l)" and ar: "a \<notin> set (addrs r)"
    and lr_disj: "set (addrs l) \<inter> set (addrs r) = {}"
    by auto
  have qa: "case q of None \<Rightarrow> True | Some pa \<Rightarrow> pa \<noteq> a \<and> cell h pa \<noteq> None"
    using less.prems(3) T by (auto split: option.splits)
  show ?case
  proof (cases "l = Leaf")
    case lLeaf: True
    with ll have ln: "left nd = None" by simp
    show ?thesis
    proof (cases "r = Leaf")
      case True
      with lr have rn: "right nd = None" by simp
      from tree_delete_leaf [OF c ln rn pq qa] T lLeaf True show ?thesis by simp
    next
      case False
      with lr obtain ra where ra: "right nd = Some ra" by (cases r) auto
      with lr have lr': "laid_out h (Some ra) (Some a) r" by simp
      have "length (addrs r) < length (addrs T)" using T by simp
      from less.hyps [OF this lr' dr] ar c
      obtain h1 where s1: "\<And>k. tree_delete (2 * length (addrs r) - 1 + k) h (Some ra) = tree_delete k h1 (Some a)"
        and f1: "freed h h1 (addrs r) (Some a) ra"
        by auto
      from f1 c ln ra have c1: "cell h1 a = Some (nd\<lparr>right := None\<rparr>)"
        by (simp add: freed_def unlink_def)
      have qa1: "case q of None \<Rightarrow> True | Some pa \<Rightarrow> pa \<noteq> a \<and> cell h1 pa \<noteq> None"
        using qa f1 less.prems(3) T by (auto simp: freed_def split: option.splits)
      from tree_delete_leaf [OF c1 _ _ _ qa1] ln pq
      obtain h2 where s2: "\<And>k. tree_delete (Suc k) h1 (Some a) = tree_delete k h2 q"
        and f2: "freed h1 h2 [a] q a"
        by auto
      have "tree_delete (2 * length (addrs T) - 1 + k) h (Some a) = tree_delete k h2 q" for k
      proof -
        have "2 * length (addrs T) - 1 + k = Suc (2 * length (addrs r) - 1 + Suc k)"
          using T lLeaf False by (cases r) auto
        then have "tree_delete (2 * length (addrs T) - 1 + k) h (Some a) =
              tree_delete (Suc (2 * length (addrs r) - 1 + Suc k)) h (Some a)"
          by (simp only:)
        also have "\<dots> = tree_delete (2 * length (addrs r) - 1 + Suc k) h (Some ra)"
          using tree_delete_descend_right [OF c ln] ra by (simp del: tree_delete.simps)
        also have "\<dots> = tree_delete (Suc k) h1 (Some a)" by (rule s1)
        also have "\<dots> = tree_delete k h2 q" by (rule s2)
        finally show ?thesis .
      qed
      moreover have "freed h h2 (addrs T) q a"
        using f1 f2 T lLeaf less.prems(3) ar
        by (auto simp: freed_def split: option.splits)
      ultimately show ?thesis by blast
    qed
  next
    case False
    with ll obtain la where la: "left nd = Some la" by (cases l) auto
    with ll have ll': "laid_out h (Some la) (Some a) l" by simp
    have "length (addrs l) < length (addrs T)" using T by simp
    from less.hyps [OF this ll' dl] al c
    obtain h1 where s1: "\<And>k. tree_delete (2 * length (addrs l) - 1 + k) h (Some la) = tree_delete k h1 (Some a)"
      and f1: "freed h h1 (addrs l) (Some a) la"
      by auto
    from f1 c la have c1: "cell h1 a = Some (nd\<lparr>left := None\<rparr>)"
      by (simp add: freed_def unlink_def)
    let ?T' = "Node Leaf a v r"
    have fr: "\<forall>b\<in>set (addrs r). cell h1 b = cell h b"
      using f1 lr_disj ar by (auto simp: freed_def)
    have lo1: "laid_out h1 (Some a) q ?T'"
      using c1 nv pq lr laid_out_frame [OF fr] by simp
    have d1: "distinct (addrs ?T')" using dr ar by simp
    have q1: "case q of None \<Rightarrow> True | Some pa \<Rightarrow> pa \<notin> set (addrs ?T') \<and> cell h1 pa \<noteq> None"
      using less.prems(3) T f1 by (auto simp: freed_def split: option.splits)
    have "length (addrs ?T') < length (addrs T)" using T False by (cases l) auto
    from less.hyps [OF this lo1 d1 q1]
    obtain h2 where s2: "\<And>k. tree_delete (2 * length (addrs ?T') - 1 + k) h1 (Some a) = tree_delete k h2 q"
      and f2: "freed h1 h2 (addrs ?T') q a"
      by auto
    have "tree_delete (2 * length (addrs T) - 1 + k) h (Some a) = tree_delete k h2 q" for k
    proof -
      have "2 * length (addrs T) - 1 + k =
            Suc (2 * length (addrs l) - 1 + (2 * length (addrs ?T') - 1 + k))"
        using T False by (cases l) auto
      then have "tree_delete (2 * length (addrs T) - 1 + k) h (Some a) =
            tree_delete (Suc (2 * length (addrs l) - 1 + (2 * length (addrs ?T') - 1 + k))) h (Some a)"
        by (simp only:)
      also have "\<dots> = tree_delete (2 * length (addrs l) - 1 + (2 * length (addrs ?T') - 1 + k)) h (Some la)"
        using tree_delete_descend_left [OF c] la by (simp del: tree_delete.simps)
      also have "\<dots> = tree_delete (2 * length (addrs ?T') - 1 + k) h1 (Some a)" by (rule s1)
      also have "\<dots> = tree_delete k h2 q" by (rule s2)
      finally show ?thesis .
    qed
    moreover have "freed h h2 (addrs T) q a"
      using f1 f2 T less.prems(3) al
      by (auto simp: freed_def split: option.splits)
    ultimately show ?thesis by blast
  qed
qed

section \<open>Moving a tree node by node\<close>

lemma cell_append:
  "cell (h @ [x]) b = (if b < length h then cell h b else if b = length h then x else None)"
  by (auto simp: cell_def nth_append)

lemma laid_out_alive: "laid_out h p q S \<Longrightarrow> b \<in> set (addrs S) \<Longrightarrow> cell h b \<noteq> None"
  by (induction S arbitrary: p q) (auto split: option.splits)

lemma laid_out_lt: "laid_out h p q S \<Longrightarrow> b \<in> set (addrs S) \<Longrightarrow> b < length h"
  using laid_out_alive [of h p q S b] by (auto simp: cell_def split: if_splits)

lemma move_walk_step_left:
  assumes "cell h c = Some cn" "cell h rw = Some rn" "left cn = Some cl" "left rn = None"
    "cell h cl = Some ln" "c \<noteq> rw"
  shows "move_walk (Suc k) h (Some c) (Some rw) =
         move_walk k
           ((h @ [Some \<lparr>nvalue = nvalue ln, left = None, right = None, parent = Some rw\<rparr>])
              [rw := Some (rn\<lparr>left := Some (length h)\<rparr>)])
           (Some cl) (Some (length h))"
proof -
  let ?h1 = "h @ [Some \<lparr>nvalue = nvalue ln, left = None, right = None, parent = Some rw\<rparr>]"
  let ?h2 = "?h1[rw := Some (rn\<lparr>left := Some (length h)\<rparr>)]"
  have lt: "rw < length h" "c < length h" using assms by (auto dest: cell_Some_lt)
  have u: "update ?h1 (Some rw) (\<lambda>x. x\<lparr>left := Some (length h)\<rparr>) = Done ?h2"
    using assms(2) lt by (simp add: update_def cell_append)
  have c2: "cell ?h2 c = Some cn" using assms lt by (simp add: cell_update cell_append)
  have r2: "cell ?h2 rw = Some (rn\<lparr>left := Some (length h)\<rparr>)"
    using lt by (simp add: cell_update)
  show ?thesis
    using assms(1-5) u c2 r2
    by (simp add: deref_Some node_create_def)
qed

lemma move_walk_step_right:
  assumes "cell h c = Some cn" "cell h rw = Some rn" "left cn = None \<or> left rn \<noteq> None"
    "right cn = Some cr" "right rn = None" "cell h cr = Some ln" "c \<noteq> rw"
  shows "move_walk (Suc k) h (Some c) (Some rw) =
         move_walk k
           ((h @ [Some \<lparr>nvalue = nvalue ln, left = None, right = None, parent = Some rw\<rparr>])
              [rw := Some (rn\<lparr>right := Some (length h)\<rparr>)])
           (Some cr) (Some (length h))"
proof -
  let ?h1 = "h @ [Some \<lparr>nvalue = nvalue ln, left = None, right = None, parent = Some rw\<rparr>]"
  let ?h2 = "?h1[rw := Some (rn\<lparr>right := Some (length h)\<rparr>)]"
  have lt: "rw < length h" "c < length h" using assms by (auto dest: cell_Some_lt)
  have u: "update ?h1 (Some rw) (\<lambda>x. x\<lparr>right := Some (length h)\<rparr>) = Done ?h2"
    using assms(2) lt by (simp add: update_def cell_append)
  have c2: "cell ?h2 c = Some cn" using assms lt by (simp add: cell_update cell_append)
  have r2: "cell ?h2 rw = Some (rn\<lparr>right := Some (length h)\<rparr>)"
    using lt by (simp add: cell_update)
  from assms(3) show ?thesis
    using assms(1,2,4-6) u c2 r2
    by (auto simp add: deref_Some node_create_def)
qed

lemma move_walk_step_up:
  assumes "cell h c = Some cn" "cell h rw = Some rn" "left cn = None \<or> left rn \<noteq> None"
    "right cn = None \<or> right rn \<noteq> None"
  shows "move_walk (Suc k) h (Some c) (Some rw) = move_walk k h (parent cn) (parent rn)"
  using assms by (auto simp add: deref_Some)


lemma addrs_Leaf_iff: "addrs S = [] \<longleftrightarrow> S = Leaf"
  by (cases S) auto

lemma laid_out_child_Leaf: "laid_out h x q S \<Longrightarrow> (x = None \<longleftrightarrow> S = Leaf)"
  by (cases S) auto

text \<open>
  Started at the root \<open>c\<close> of a source subtree with \<open>n\<close> nodes and at a fresh node \<open>rw\<close>
  without children, the loop of \<^verbatim>\<open>move_from\<close> arrives after \<open>2 n - 1\<close> turns at the parent
  links of \<open>c\<close> and \<open>rw\<close>; it has built under \<open>rw\<close> a tree of the same depth from new
  nodes and has left every older cell but \<open>rw\<close> as it was.
\<close>

lemma move_walk_segment:
  "laid_out h (Some c) cq S \<Longrightarrow> cell h rw = Some rn \<Longrightarrow> left rn = None \<Longrightarrow> right rn = None
     \<Longrightarrow> rw \<notin> set (addrs S)
     \<Longrightarrow> \<exists>h' S'.
           (\<forall>k. move_walk (2 * length (addrs S) - 1 + k) h (Some c) (Some rw) =
                 move_walk k h' cq (parent rn))
           \<and> length h \<le> length h'
           \<and> (\<forall>b<length h. b \<noteq> rw \<longrightarrow> cell h' b = cell h b)
           \<and> laid_out h' (Some rw) (parent rn) S' \<and> depth S' = depth S
           \<and> set (addrs S') \<subseteq> insert rw {length h..<length h'}"
proof (induction S arbitrary: h c cq rw rn)
  case Leaf
  then show ?case by simp
next
  case (Node l c' v r)
  from Node.prems(1) obtain cn where cc: "c' = c" and c: "cell h c = Some cn"
    and pq: "parent cn = cq"
    and ll: "laid_out h (left cn) (Some c) l" and lr: "laid_out h (right cn) (Some c) r"
    by (auto split: option.splits)
  from Node.prems(5) cc have ne: "c \<noteq> rw" and rwl: "rw \<notin> set (addrs l)"
    and rwr: "rw \<notin> set (addrs r)" by auto
  have rwlt: "rw < length h" using Node.prems(2) by (rule cell_Some_lt)
  have clt: "c < length h" using c by (rule cell_Some_lt)
  define nL where "nL = (if l = Leaf then 0 else 2 * length (addrs l))"
  define nR where "nR = (if r = Leaf then 0 else 2 * length (addrs r))"
  have L: "\<exists>h3 x l'.
      (\<forall>k. move_walk (nL + k) h (Some c) (Some rw) = move_walk k h3 (Some c) (Some rw))
      \<and> length h \<le> length h3 \<and> (\<forall>b<length h. b \<noteq> rw \<longrightarrow> cell h3 b = cell h b)
      \<and> cell h3 rw = Some (rn\<lparr>left := x\<rparr>) \<and> (x = None \<longleftrightarrow> l = Leaf)
      \<and> laid_out h3 x (Some rw) l' \<and> depth l' = depth l
      \<and> set (addrs l') \<subseteq> {length h..<length h3}"
  proof (cases "l = Leaf")
    case True
    have "cell h rw = Some (rn\<lparr>left := None\<rparr>)" using Node.prems(2,3) by simp
    moreover have "laid_out h None (Some rw) (Leaf :: 'a shape)" by simp
    ultimately show ?thesis using True unfolding nL_def
      by (intro exI [of _ h] exI [of _ None] exI [of _ Leaf]) simp
  next
    case False
    with ll obtain cl where cl: "left cn = Some cl" by (cases l) auto
    with ll have ll': "laid_out h (Some cl) (Some c) l" by simp
    then have "cl \<in> set (addrs l)" by (rule laid_out_root_addr)
    with ll' obtain ln where ln: "cell h cl = Some ln"
      using laid_out_alive by fastforce
    let ?f = "\<lparr>nvalue = nvalue ln, left = None, right = None, parent = Some rw\<rparr>"
    let ?h2 = "(h @ [Some ?f])[rw := Some (rn\<lparr>left := Some (length h)\<rparr>)]"
    have st: "\<And>k. move_walk (Suc k) h (Some c) (Some rw) = move_walk k ?h2 (Some cl) (Some (length h))"
      by (rule move_walk_step_left [OF c Node.prems(2) cl Node.prems(3) ln ne])
    have fr2: "\<forall>b<length h. b \<noteq> rw \<longrightarrow> cell ?h2 b = cell h b"
      by (simp add: cell_update cell_append)
    have "\<forall>b\<in>set (addrs l). cell ?h2 b = cell h b"
      using fr2 rwl laid_out_lt [OF ll'] by blast
    from laid_out_frame [OF this] ll' have ll2: "laid_out ?h2 (Some cl) (Some c) l" by simp
    have f2: "cell ?h2 (length h) = Some ?f" using rwlt by (simp add: cell_update cell_append)
    have nl: "length h \<notin> set (addrs l)" using laid_out_lt [OF ll'] by blast
    from Node.IH(1) [OF ll2 f2 _ _ nl]
    obtain h3 l' where s3: "\<And>k. move_walk (2 * length (addrs l) - 1 + k) ?h2 (Some cl) (Some (length h)) =
                 move_walk k h3 (Some c) (Some rw)"
      and len3: "length ?h2 \<le> length h3"
      and fr3: "\<forall>b<length ?h2. b \<noteq> length h \<longrightarrow> cell h3 b = cell ?h2 b"
      and lo3: "laid_out h3 (Some (length h)) (Some rw) l'" and d3: "depth l' = depth l"
      and a3: "set (addrs l') \<subseteq> insert (length h) {length ?h2..<length h3}"
      by auto
    have "move_walk (nL + k) h (Some c) (Some rw) = move_walk k h3 (Some c) (Some rw)" for k
    proof -
      have "nL + k = Suc (2 * length (addrs l) - 1 + k)"
        using False unfolding nL_def by (cases l) auto
      then show ?thesis using st s3 by (simp del: move_walk.simps)
    qed
    moreover have "length h \<le> length h3" using len3 by simp
    moreover have "\<forall>b<length h. b \<noteq> rw \<longrightarrow> cell h3 b = cell h b"
      using fr3 fr2 by auto
    moreover have "cell h3 rw = Some (rn\<lparr>left := Some (length h)\<rparr>)"
      using fr3 rwlt by (simp add: cell_update)
    moreover have "set (addrs l') \<subseteq> {length h..<length h3}" using a3 len3 by auto
    ultimately show ?thesis using lo3 d3 False
      by (intro exI [of _ h3] exI [of _ "Some (length h)"] exI [of _ l']) simp
  qed
  then obtain h3 x l' where
    s3: "\<And>k. move_walk (nL + k) h (Some c) (Some rw) = move_walk k h3 (Some c) (Some rw)"
    and len3: "length h \<le> length h3" and fr3: "\<forall>b<length h. b \<noteq> rw \<longrightarrow> cell h3 b = cell h b"
    and rw3: "cell h3 rw = Some (rn\<lparr>left := x\<rparr>)" and xl: "x = None \<longleftrightarrow> l = Leaf"
    and lo3: "laid_out h3 x (Some rw) l'" and d3: "depth l' = depth l"
    and a3: "set (addrs l') \<subseteq> {length h..<length h3}"
    by blast
  have c3: "cell h3 c = Some cn" using fr3 clt ne c by simp
  have "\<forall>b\<in>set (addrs r). cell h3 b = cell h b"
    using fr3 rwr laid_out_lt [OF lr] by blast
  from laid_out_frame [OF this] lr have lr3: "laid_out h3 (right cn) (Some c) r" by simp
  have rwlt3: "rw < length h3" using rwlt len3 by simp
  have lcond: "left cn = None \<or> left (rn\<lparr>left := x\<rparr>) \<noteq> None"
    using xl laid_out_child_Leaf [OF ll] by auto
  have R: "\<exists>h5 y r'.
      (\<forall>k. move_walk (nR + k) h3 (Some c) (Some rw) = move_walk k h5 (Some c) (Some rw))
      \<and> length h3 \<le> length h5 \<and> (\<forall>b<length h3. b \<noteq> rw \<longrightarrow> cell h5 b = cell h3 b)
      \<and> cell h5 rw = Some (rn\<lparr>left := x, right := y\<rparr>) \<and> (y = None \<longleftrightarrow> r = Leaf)
      \<and> laid_out h5 y (Some rw) r' \<and> depth r' = depth r
      \<and> set (addrs r') \<subseteq> {length h3..<length h5}"
  proof (cases "r = Leaf")
    case True
    have "cell h3 rw = Some (rn\<lparr>left := x, right := None\<rparr>)" using rw3 Node.prems(4) by simp
    moreover have "laid_out h3 None (Some rw) (Leaf :: 'a shape)" by simp
    ultimately show ?thesis using True unfolding nR_def
      by (intro exI [of _ h3] exI [of _ None] exI [of _ Leaf]) simp
  next
    case False
    with lr3 obtain cr where cr: "right cn = Some cr" by (cases r) auto
    with lr3 have lr': "laid_out h3 (Some cr) (Some c) r" by simp
    then have "cr \<in> set (addrs r)" by (rule laid_out_root_addr)
    with lr' obtain ln where ln: "cell h3 cr = Some ln"
      using laid_out_alive by fastforce
    let ?f = "\<lparr>nvalue = nvalue ln, left = None, right = None, parent = Some rw\<rparr>"
    let ?h4 = "(h3 @ [Some ?f])[rw := Some (rn\<lparr>left := x, right := Some (length h3)\<rparr>)]"
    have rr: "right (rn\<lparr>left := x\<rparr>) = None" using Node.prems(4) by simp
    have st: "\<And>k. move_walk (Suc k) h3 (Some c) (Some rw) = move_walk k ?h4 (Some cr) (Some (length h3))"
      using move_walk_step_right [OF c3 rw3 lcond cr rr ln ne] by simp
    have fr4: "\<forall>b<length h3. b \<noteq> rw \<longrightarrow> cell ?h4 b = cell h3 b"
      by (simp add: cell_update cell_append)
    have "\<forall>b\<in>set (addrs r). cell ?h4 b = cell h3 b"
      using fr4 rwr laid_out_lt [OF lr'] by blast
    from laid_out_frame [OF this] lr' have lr4: "laid_out ?h4 (Some cr) (Some c) r" by simp
    have f4: "cell ?h4 (length h3) = Some ?f" using rwlt3 by (simp add: cell_update cell_append)
    have nl: "length h3 \<notin> set (addrs r)" using laid_out_lt [OF lr'] by blast
    from Node.IH(2) [OF lr4 f4 _ _ nl]
    obtain h5 r' where s5: "\<And>k. move_walk (2 * length (addrs r) - 1 + k) ?h4 (Some cr) (Some (length h3)) =
                 move_walk k h5 (Some c) (Some rw)"
      and len5: "length ?h4 \<le> length h5"
      and fr5: "\<forall>b<length ?h4. b \<noteq> length h3 \<longrightarrow> cell h5 b = cell ?h4 b"
      and lo5: "laid_out h5 (Some (length h3)) (Some rw) r'" and d5: "depth r' = depth r"
      and a5: "set (addrs r') \<subseteq> insert (length h3) {length ?h4..<length h5}"
      by auto
    have "move_walk (nR + k) h3 (Some c) (Some rw) = move_walk k h5 (Some c) (Some rw)" for k
    proof -
      have "nR + k = Suc (2 * length (addrs r) - 1 + k)"
        using False unfolding nR_def by (cases r) auto
      then show ?thesis using st s5 by (simp del: move_walk.simps)
    qed
    moreover have "length h3 \<le> length h5" using len5 by simp
    moreover have "\<forall>b<length h3. b \<noteq> rw \<longrightarrow> cell h5 b = cell h3 b"
      using fr5 fr4 by auto
    moreover have "cell h5 rw = Some (rn\<lparr>left := x, right := Some (length h3)\<rparr>)"
      using fr5 rwlt3 by (simp add: cell_update)
    moreover have "set (addrs r') \<subseteq> {length h3..<length h5}" using a5 len5 by auto
    ultimately show ?thesis using lo5 d5 False
      by (intro exI [of _ h5] exI [of _ "Some (length h3)"] exI [of _ r']) simp
  qed
  then obtain h5 y r' where
    s5: "\<And>k. move_walk (nR + k) h3 (Some c) (Some rw) = move_walk k h5 (Some c) (Some rw)"
    and len5: "length h3 \<le> length h5" and fr5: "\<forall>b<length h3. b \<noteq> rw \<longrightarrow> cell h5 b = cell h3 b"
    and rw5: "cell h5 rw = Some (rn\<lparr>left := x, right := y\<rparr>)" and yr: "y = None \<longleftrightarrow> r = Leaf"
    and lo5: "laid_out h5 y (Some rw) r'" and d5: "depth r' = depth r"
    and a5: "set (addrs r') \<subseteq> {length h3..<length h5}"
    by blast
  have c5: "cell h5 c = Some cn" using fr5 clt len3 ne c3 by simp
  have up: "\<And>k. move_walk (Suc k) h5 (Some c) (Some rw) = move_walk k h5 cq (parent rn)"
  proof -
    fix k
    have "left cn = None \<or> left (rn\<lparr>left := x, right := y\<rparr>) \<noteq> None"
      using xl laid_out_child_Leaf [OF ll] by auto
    moreover have "right cn = None \<or> right (rn\<lparr>left := x, right := y\<rparr>) \<noteq> None"
      using yr laid_out_child_Leaf [OF lr] by auto
    ultimately show "move_walk (Suc k) h5 (Some c) (Some rw) = move_walk k h5 cq (parent rn)"
      using move_walk_step_up [OF c5 rw5] pq by simp
  qed
  let ?S' = "Node l' rw (nvalue rn) r'"
  have "move_walk (2 * length (addrs (Node l c' v r)) - 1 + k) h (Some c) (Some rw) =
        move_walk k h5 cq (parent rn)" for k
  proof -
    have "2 * length (addrs (Node l c' v r)) - 1 + k = nL + (nR + Suc k)"
      unfolding nL_def nR_def by (auto simp: addrs_Leaf_iff)
    then have "move_walk (2 * length (addrs (Node l c' v r)) - 1 + k) h (Some c) (Some rw) =
               move_walk (nL + (nR + Suc k)) h (Some c) (Some rw)"
      by (simp only:)
    also have "\<dots> = move_walk (nR + Suc k) h3 (Some c) (Some rw)" by (rule s3)
    also have "\<dots> = move_walk (Suc k) h5 (Some c) (Some rw)" by (rule s5)
    also have "\<dots> = move_walk k h5 cq (parent rn)" by (rule up)
    finally show ?thesis .
  qed
  moreover have "length h \<le> length h5" using len3 len5 by simp
  moreover have "\<forall>b<length h. b \<noteq> rw \<longrightarrow> cell h5 b = cell h b"
    using fr3 fr5 len3 by auto
  moreover have "laid_out h5 (Some rw) (parent rn) ?S'"
  proof -
    have "\<forall>b\<in>set (addrs l'). cell h5 b = cell h3 b"
      using a3 fr5 rwlt by auto
    from laid_out_frame [OF this] lo3 have "laid_out h5 x (Some rw) l'" by simp
    with rw5 lo5 show ?thesis by simp
  qed
  moreover have "depth ?S' = depth (Node l c' v r)" using d3 d5 by simp
  moreover have "set (addrs ?S') \<subseteq> insert rw {length h..<length h5}"
    using a3 a5 len3 len5 by auto
  ultimately show ?case by blast
qed

section \<open>Clearing and move assignment\<close>

lemma depth_le_size: "depth S \<le> length (addrs S)"
  by (induction S) auto

lemma tree_delete_root:
  assumes "laid_out h p None T" "distinct (addrs T)" "2 * length (addrs T) \<le> k"
  shows "\<exists>h'. tree_delete k h p = Done h' \<and> length h' = length h
           \<and> (\<forall>b. b \<notin> set (addrs T) \<longrightarrow> cell h' b = cell h b)"
proof (cases T)
  case Leaf
  with assms(1) show ?thesis by simp
next
  case (Node l a v r)
  with assms(1) have p: "p = Some a" by simp
  from tree_delete_segment [of h a None T] assms(1,2) p
  obtain h' where s: "\<And>k. tree_delete (2 * length (addrs T) - 1 + k) h (Some a) = tree_delete k h' None"
    and f: "freed h h' (addrs T) None a"
    by auto
  from assms(3) obtain k' where "k = 2 * length (addrs T) - 1 + k'"
    by (metis diff_le_self le_Suc_ex le_trans)
  with s [of k'] p have "tree_delete k h p = Done h'" by simp
  with f show ?thesis by (auto simp: freed_def)
qed

lemma clear_well_laid:
  assumes "laid_out h (tree_root t) None T" "distinct (addrs T)" "2 * length (addrs T) \<le> k"
  shows "\<exists>h'. clear k h t =
            Done (h', t\<lparr>tree_size := 0, tree_begin := iterator_default,
                        tree_end := iterator_default, tree_root := None\<rparr>)
           \<and> length h' = length h
           \<and> (\<forall>b. b \<notin> set (addrs T) \<longrightarrow> cell h' b = cell h b)"
proof -
  from tree_delete_root [OF assms] obtain h' where
    "tree_delete k h (tree_root t) = Done h'" "length h' = length h"
    "\<forall>b. b \<notin> set (addrs T) \<longrightarrow> cell h' b = cell h b"
    by blast
  then show ?thesis by (auto simp: clear_def root_reset_def)
qed

lemma descend_left_total:
  "laid_out h p q S \<Longrightarrow> S \<noteq> Leaf \<Longrightarrow> depth S \<le> k \<Longrightarrow> \<exists>m. descend_left k h p = Done m"
proof (induction S arbitrary: p q k)
  case Leaf
  then show ?case by simp
next
  case (Node l a v r)
  from Node.prems(3) obtain k1 where k: "k = Suc k1" and dl: "depth l \<le> k1"
    by (cases k) auto
  from Node.prems(1) obtain nd where p: "p = Some a" and c: "cell h a = Some nd"
    and ll: "laid_out h (left nd) (Some a) l"
    by (auto split: option.splits)
  show ?case
  proof (cases "l = Leaf")
    case True
    with ll have "left nd = None" by simp
    with p c k show ?thesis by (simp add: deref_Some)
  next
    case False
    with laid_out_child_Leaf [OF ll] have "left nd \<noteq> None" by simp
    moreover from Node.IH(1) [OF ll False dl] obtain m where "descend_left k1 h (left nd) = Done m" ..
    ultimately show ?thesis using p c k by (simp add: deref_Some)
  qed
qed

lemma descend_right_total:
  "laid_out h p q S \<Longrightarrow> S \<noteq> Leaf \<Longrightarrow> depth S \<le> k \<Longrightarrow> \<exists>m. descend_right k h p = Done m"
proof (induction S arbitrary: p q k)
  case Leaf
  then show ?case by simp
next
  case (Node l a v r)
  from Node.prems(3) obtain k1 where k: "k = Suc k1" and dr: "depth r \<le> k1"
    by (cases k) auto
  from Node.prems(1) obtain nd where p: "p = Some a" and c: "cell h a = Some nd"
    and lr: "laid_out h (right nd) (Some a) r"
    by (auto split: option.splits)
  show ?case
  proof (cases "r = Leaf")
    case True
    with lr have "right nd = None" by simp
    with p c k show ?thesis by (simp add: deref_Some)
  next
    case False
    with laid_out_child_Leaf [OF lr] have "right nd \<noteq> None" by simp
    moreover from Node.IH(2) [OF lr False dr] obtain m where "descend_right k1 h (right nd) = Done m" ..
    ultimately show ?thesis using p c k by (simp add: deref_Some)
  qed
qed

lemma move_from_total:
  assumes "laid_out h p None T" "2 * length (addrs T) \<le> k"
  shows "\<exists>h' r S'. move_from k h p = Done (h', r) \<and> length h \<le> length h'
           \<and> (\<forall>b<length h. cell h' b = cell h b)
           \<and> laid_out h' r None S' \<and> depth S' = depth T"
proof (cases T)
  case Leaf
  with assms(1) have "p = None" by simp
  then have "move_from k h p = Done (h, None)" by (simp add: move_from_def)
  moreover have "laid_out h None None (Leaf :: 'a shape)" by simp
  ultimately show ?thesis using Leaf by (intro exI [of _ h] exI [of _ None] exI [of _ Leaf]) simp
next
  case (Node l a v r)
  with assms(1) obtain nd where p: "p = Some a" and c: "cell h a = Some nd"
    by (auto split: option.splits)
  let ?f = "\<lparr>nvalue = nvalue nd, left = None, right = None, parent = None\<rparr>"
  let ?h1 = "h @ [Some ?f]"
  have fr1: "\<forall>b<length h. cell ?h1 b = cell h b" by (simp add: cell_append)
  have lt: "\<forall>b\<in>set (addrs T). b < length h" using laid_out_lt [OF assms(1)] by blast
  with fr1 have "\<forall>b\<in>set (addrs T). cell ?h1 b = cell h b" by blast
  from laid_out_frame [OF this] assms(1) p have lo1: "laid_out ?h1 (Some a) None T" by simp
  have f1: "cell ?h1 (length h) = Some ?f" by (simp add: cell_append)
  have nl: "length h \<notin> set (addrs T)" using lt by blast
  from move_walk_segment [OF lo1 f1 _ _ nl]
  obtain h' S' where s: "\<And>k. move_walk (2 * length (addrs T) - 1 + k) ?h1 (Some a) (Some (length h)) =
                 move_walk k h' None None"
    and len: "length ?h1 \<le> length h'"
    and fr: "\<forall>b<length ?h1. b \<noteq> length h \<longrightarrow> cell h' b = cell ?h1 b"
    and lo: "laid_out h' (Some (length h)) None S'" and d: "depth S' = depth T"
    by auto
  from assms(2) obtain k' where "k = 2 * length (addrs T) - 1 + k'"
    by (metis diff_le_self le_Suc_ex le_trans)
  with s [of k'] have "move_walk k ?h1 (Some a) (Some (length h)) = Done h'" by simp
  then have "move_from k h p = Done (h', Some (length h))"
    using p c by (simp add: move_from_def deref_Some node_create_def)
  moreover have "length h \<le> length h'" using len by simp
  moreover have "\<forall>b<length h. cell h' b = cell h b" using fr fr1 by auto
  ultimately show ?thesis using lo d by blast
qed


lemma iter_eq_default: "iter_eq iterator_default iterator_default"
  by (simp add: iter_eq_def iterator_default_def)

lemma move_assign_swap_branch:
  assumes "well_laid h this T1" "2 * length (addrs T1) \<le> k"
  shows "\<exists>h'. rbind (clear k h this) (\<lambda>(h1, this1).
             case swap_members this1 other of (this2, other2) \<Rightarrow> Done (h1, this2, other2)) =
           Done (h', other,
                 other\<lparr>tree_root := None, tree_size := 0, tree_begin := iterator_default,
                        tree_end := iterator_default\<rparr>)"
proof -
  from assms have "laid_out h (tree_root this) None T1" "distinct (addrs T1)"
    by (simp_all add: well_laid_def)
  from clear_well_laid [OF this assms(2)] obtain h' where
    "clear k h this =
       Done (h', this\<lparr>tree_size := 0, tree_begin := iterator_default,
                      tree_end := iterator_default, tree_root := None\<rparr>)"
    by blast
  then show ?thesis by (simp add: swap_members_def)
qed

lemma move_assign_move_branch:
  assumes w1: "well_laid h this T1" and w2: "well_laid h other T2"
    and disj: "set (addrs T1) \<inter> set (addrs T2) = {}"
    and k: "2 * (length (addrs T1) + length (addrs T2)) \<le> k"
  shows "\<exists>h' this'. move_assign k False True h this other =
           Done (h', this',
                 other\<lparr>tree_size := 0, tree_begin := iterator_default,
                        tree_end := iterator_default, tree_root := None\<rparr>)"
proof -
  from w1 have l1: "laid_out h (tree_root this) None T1" and d1: "distinct (addrs T1)"
    by (simp_all add: well_laid_def)
  from w2 have l2: "laid_out h (tree_root other) None T2" and d2: "distinct (addrs T2)"
    and sz: "unat (tree_size other) = length (addrs T2)"
    by (simp_all add: well_laid_def)
  from k have k1: "2 * length (addrs T1) \<le> k" and k2: "2 * length (addrs T2) \<le> k" by simp_all
  let ?this1 = "this\<lparr>tree_size := 0, tree_begin := iterator_default,
                      tree_end := iterator_default, tree_root := None\<rparr>"
  from clear_well_laid [OF l1 d1 k1] obtain h1 where
    c1: "clear k h this = Done (h1, ?this1)"
    and fr1: "\<forall>b. b \<notin> set (addrs T1) \<longrightarrow> cell h1 b = cell h b"
    by blast
  have "\<forall>b\<in>set (addrs T2). cell h1 b = cell h b" using fr1 disj by blast
  from laid_out_frame [OF this] l2 have l21: "laid_out h1 (tree_root other) None T2" by simp
  from move_from_total [OF l21 k2] obtain h2 r S' where
    m: "move_from k h1 (tree_root other) = Done (h2, r)"
    and fr2: "\<forall>b<length h1. cell h2 b = cell h1 b"
    and lo: "laid_out h2 r None S'" and dS: "depth S' = depth T2"
    by blast
  have "\<forall>b\<in>set (addrs T2). cell h2 b = cell h1 b"
    using fr2 laid_out_lt [OF l21] by blast
  from laid_out_frame [OF this] l21 have l22: "laid_out h2 (tree_root other) None T2" by simp
  let ?this2 = "?this1\<lparr>tree_root := r\<rparr>"
  have rr: "root_reset k h2 ?this1 r = Done (h2, ?this2)" by (simp add: root_reset_def)
  have "\<exists>this3. set_iterators k h2 (?this2\<lparr>tree_size := tree_size other\<rparr>) = Done this3"
  proof (cases "tree_size other > 0")
    case True
    then have "unat (tree_size other) \<noteq> 0" by (simp add: unat_gt_0 word_neq_0_conv)
    with sz have "T2 \<noteq> Leaf" by auto
    then have "depth T2 \<noteq> 0" by (cases T2) auto
    with dS have ne: "S' \<noteq> Leaf" by auto
    have "depth S' \<le> k" using dS depth_le_size [of T2] k2 by simp
    from descend_left_total [OF lo ne this] descend_right_total [OF lo ne this]
    obtain m1 m2 where "descend_left k h2 r = Done m1" "descend_right k h2 r = Done m2" by blast
    with True show ?thesis by (simp add: set_iterators_def)
  next
    case False
    then show ?thesis by (simp add: set_iterators_def)
  qed
  then obtain this3 where si: "set_iterators k h2 (?this2\<lparr>tree_size := tree_size other\<rparr>) = Done this3" ..
  from clear_well_laid [OF l22 d2 k2] obtain h4 where
    c2: "clear k h2 other =
       Done (h4, other\<lparr>tree_size := 0, tree_begin := iterator_default,
                      tree_end := iterator_default, tree_root := None\<rparr>)"
    by blast
  from c1 m rr si c2 show ?thesis
    by (simp add: move_assign_def)
qed


section \<open>The claims\<close>

text \<open>
  C1. Claim: every tree reachable from the empty tree by inserts and erases satisfies the
  search-tree ordering, and the traversal from \<^verbatim>\<open>begin ()\<close> to \<^verbatim>\<open>end ()\<close> visits strictly
  increasing keys.

  What the code does: insert 5, 3, 1, 4 and erase 3, a node with two children that is not
  the root. The run returns; \<^verbatim>\<open>begin ()\<close> is at 1 and its successor is 4; incrementing the
  iterator at 4 never returns, for any amount of fuel, and so the traversal from
  \<^verbatim>\<open>begin ()\<close> to \<^verbatim>\<open>end ()\<close> never returns either: it does not reach 5.
\<close>

theorem traversal_after_erase_diverges:
  "\<exists>h t it1.
     from_empty 4 (<) [Insert (5::nat), Insert 3, Insert 1, Insert 4, Erase 3] = Done (h, t)
     \<and> star h (begin_bst t) = Done 1
     \<and> increment 4 h (begin_bst t) = Done it1 \<and> star h it1 = Done 4
     \<and> (\<forall>k. increment k h it1 = Timeout)
     \<and> (\<forall>k. traverse k h (begin_bst t) (end_bst t) = Timeout)"
proof -
  let ?h = "[Some \<lparr>nvalue = 5::nat, left = Some 2, right = None, parent = None\<rparr>, None,
    Some \<lparr>nvalue = 1, left = None, right = Some 3, parent = Some 2\<rparr>,
    Some \<lparr>nvalue = 4, left = None, right = None, parent = Some 2\<rparr>]"
  let ?t = "\<lparr>tree_root = Some 0, tree_size = 3,
      tree_begin = \<lparr>iter = Some 2, state = valid\<rparr>,
      tree_end = \<lparr>iter = Some 0, state = after_end\<rparr>\<rparr>"
  let ?it = "\<lparr>iter = Some 3, state = valid\<rparr>"
  have a: "star ?h (begin_bst ?t) = Done 1"
    by (simp add: star_def begin_bst_def deref_def cell_def)
  have b: "increment 4 ?h (begin_bst ?t) = Done ?it"
    by code_simp
  have c: "star ?h ?it = Done 4"
    by (simp add: star_def deref_def cell_def)
  have d: "increment k ?h ?it = Timeout" for k
    by (simp add: increment_def deref_def cell_def incr_ascend_self_parent)
  have e: "traverse k ?h (begin_bst ?t) (end_bst ?t) = Timeout" for k
  proof (cases k)
    case 0
    then show ?thesis by simp
  next
    case (Suc k1)
    show ?thesis
    proof (cases k1)
      case 0
      with Suc show ?thesis
        by (simp add: begin_bst_def end_bst_def iter_eq_def deref_def cell_def increment_def)
    next
      case (Suc k2)
      have "increment (Suc k2) ?h (begin_bst ?t) = Done ?it"
        by (simp add: increment_def begin_bst_def deref_def cell_def)
      with Suc \<open>k = Suc k1\<close> d [of k2] show ?thesis
        by (simp add: begin_bst_def end_bst_def iter_eq_def deref_def cell_def)
    qed
  qed
  from run_erase_two_children a b c d e show ?thesis by blast
qed

text \<open>
  The traversal fails without any erase as well: after insert 1, insert 2 the increment of
  the iterator at 2 is an after-end iterator on the node of 2, while \<^verbatim>\<open>end ()\<close> is the
  after-end iterator on the node of 1 (see C3).
\<close>

lemma traversal_after_two_inserts_diverges:
  "\<exists>h t. from_empty 2 (<) [Insert (1::nat), Insert 2] = Done (h, t)
     \<and> (\<forall>k. traverse k h (begin_bst t) (end_bst t) = Timeout)"
proof -
  let ?h = "[Some \<lparr>nvalue = 1::nat, left = None, right = Some 1, parent = None\<rparr>,
            Some \<lparr>nvalue = 2, left = None, right = None, parent = Some 0\<rparr>]"
  let ?t = "\<lparr>tree_root = Some 0, tree_size = 2,
            tree_begin = \<lparr>iter = Some 0, state = valid\<rparr>,
            tree_end = \<lparr>iter = Some 0, state = after_end\<rparr>\<rparr>"
  let ?two = "\<lparr>iter = Some 1, state = valid\<rparr>"
  let ?stuck = "\<lparr>iter = Some 1, state = after_end\<rparr>"
  have stuck: "traverse k ?h ?stuck (end_bst ?t) = Timeout" for k
    by (rule traverse_stuck_after_end) (simp_all add: iter_eq_def end_bst_def deref_def cell_def)
  have two: "traverse k ?h ?two (end_bst ?t) = Timeout" for k
  proof (cases k)
    case 0
    then show ?thesis by simp
  next
    case k: (Suc k1)
    have ne: "\<not> iter_eq ?two (end_bst ?t)" by (simp add: iter_eq_def end_bst_def)
    have d: "deref ?h (iter ?two) = Done \<lparr>nvalue = 2, left = None, right = None, parent = Some 0\<rparr>"
      by (simp add: deref_def cell_def)
    show ?thesis
    proof (cases k1)
      case 0
      have "increment 0 ?h ?two = Timeout" by (simp add: increment_def deref_def cell_def)
      with ne d k 0 show ?thesis by (simp del: One_nat_def)
    next
      case (Suc k2)
      have "increment (Suc k2) ?h ?two = Done ?stuck"
        by (simp add: increment_def deref_def cell_def)
      with ne d k Suc stuck [of "Suc k2"] show ?thesis
        by (simp del: One_nat_def traverse.simps(2) add: traverse.simps(2) [of "Suc k2" ?h ?two])
    qed
  qed
  have "traverse k ?h (begin_bst ?t) (end_bst ?t) = Timeout" for k
  proof (cases k)
    case 0
    then show ?thesis by simp
  next
    case k: (Suc k1)
    have ne: "\<not> iter_eq (begin_bst ?t) (end_bst ?t)"
      by (simp add: iter_eq_def begin_bst_def end_bst_def)
    have d: "deref ?h (iter (begin_bst ?t)) =
             Done \<lparr>nvalue = 1, left = None, right = Some 1, parent = None\<rparr>"
      by (simp add: begin_bst_def deref_def cell_def)
    show ?thesis
    proof (cases k1)
      case 0
      have "increment 0 ?h (begin_bst ?t) = Timeout"
        by (simp add: increment_def begin_bst_def deref_def cell_def)
      with ne d k 0 show ?thesis by (simp del: One_nat_def)
    next
      case (Suc k2)
      have "increment (Suc k2) ?h (begin_bst ?t) = Done ?two"
        by (simp add: increment_def begin_bst_def deref_def cell_def)
      with ne d k Suc two [of "Suc k2"] show ?thesis
        by (simp del: One_nat_def traverse.simps(2)
            add: traverse.simps(2) [of "Suc k2" ?h "begin_bst ?t"])
    qed
  qed
  with run_insert_1_2 show ?thesis by blast
qed

text \<open>
  C2. Claim: for every valid iterator into a well-formed non-empty tree the decrement
  terminates with the in-order predecessor, and decrementing the iterator of the minimum
  ends in the invalid state with a null cursor.

  What the code does: insert 2, then 1. \<^verbatim>\<open>begin ()\<close> is at the minimum 1, a left child
  without a left child, and decrementing it never returns, for any amount of fuel.
\<close>

theorem decrement_of_minimum_diverges:
  "\<exists>h t. from_empty 2 (<) [Insert (2::nat), Insert 1] = Done (h, t)
     \<and> star h (begin_bst t) = Done 1
     \<and> (\<forall>k. decrement k h (begin_bst t) = Timeout)"
proof -
  let ?h = "[Some \<lparr>nvalue = 2::nat, left = Some 1, right = None, parent = None\<rparr>,
          Some \<lparr>nvalue = 1, left = None, right = None, parent = Some 0\<rparr>]"
  let ?t = "\<lparr>tree_root = Some 0, tree_size = 2,
          tree_begin = \<lparr>iter = Some 1, state = valid\<rparr>,
          tree_end = \<lparr>iter = Some 0, state = after_end\<rparr>\<rparr>"
  have "decrement k ?h (begin_bst ?t) = Timeout" for k
    by (simp add: decrement_def begin_bst_def deref_def cell_def decr_ascend_at_root)
  moreover have "star ?h (begin_bst ?t) = Done 1"
    by (simp add: star_def begin_bst_def deref_def cell_def)
  ultimately show ?thesis using run_insert_2_1 by blast
qed

text \<open>
  C3. Claim: after every public operation the cached end iterator is at the rightmost node,
  in the after-end state; inserting a key above the maximum updates the cache, so that
  decrementing \<^verbatim>\<open>end ()\<close> yields the maximum and incrementing the iterator of the maximum
  compares equal to \<^verbatim>\<open>end ()\<close>.

  What the code does: insert 1, then 2. The rightmost node is the one of 2, the end cache
  still holds the node of 1; decrementing \<^verbatim>\<open>end ()\<close> yields 1, and the increment of the
  iterator at 2 is not equal to \<^verbatim>\<open>end ()\<close>. Likewise after insert 1, 3, 2 and erase 3 (the
  maximum, with a left child): the rightmost node is the one of 2, the cache holds the
  node of 1.
\<close>

theorem end_cache_not_rightmost:
  "(\<exists>h t m e.
      from_empty 2 (<) [Insert (1::nat), Insert 2] = Done (h, t)
      \<and> descend_right 2 h (tree_root t) = Done m \<and> star h (iterator m) = Done 2
      \<and> iter (end_bst t) \<noteq> m
      \<and> decrement 2 h (end_bst t) = Done e \<and> star h e = Done 1
      \<and> (\<forall>k. \<exists>i. increment (Suc k) h (iterator m) = Done i \<and> \<not> iter_eq i (end_bst t)))
   \<and> (\<exists>h t m e.
      from_empty 4 (<) [Insert (1::nat), Insert 3, Insert 2, Erase 3] = Done (h, t)
      \<and> descend_right 2 h (tree_root t) = Done m \<and> star h (iterator m) = Done 2
      \<and> iter (end_bst t) \<noteq> m
      \<and> decrement 2 h (end_bst t) = Done e \<and> star h e = Done 1)"
proof -
  let ?h = "[Some \<lparr>nvalue = 1::nat, left = None, right = Some 1, parent = None\<rparr>,
            Some \<lparr>nvalue = 2, left = None, right = None, parent = Some 0\<rparr>]"
  let ?h' = "[Some \<lparr>nvalue = 1::nat, left = None, right = Some 2, parent = None\<rparr>, None,
            Some \<lparr>nvalue = 2, left = None, right = None, parent = Some 0\<rparr>]"
  let ?t = "\<lparr>tree_root = Some 0, tree_size = 2,
            tree_begin = \<lparr>iter = Some 0, state = valid\<rparr>,
            tree_end = \<lparr>iter = Some 0, state = after_end\<rparr>\<rparr>"
  let ?e = "\<lparr>iter = Some 0, state = valid\<rparr>"
  have a: "descend_right 2 ?h (tree_root ?t) = Done (Some 1)" by code_simp
  have b: "star ?h (iterator (Some 1)) = Done 2" by code_simp
  have c: "iter (end_bst ?t) \<noteq> Some 1" by (simp add: end_bst_def)
  have d: "decrement 2 ?h (end_bst ?t) = Done ?e" by code_simp
  have e: "star ?h ?e = Done 1" by code_simp
  have f: "\<exists>i. increment (Suc k) ?h (iterator (Some 1)) = Done i \<and> \<not> iter_eq i (end_bst ?t)"
    for k
    by (simp add: increment_def iterator_def deref_def cell_def iter_eq_def end_bst_def)
  have a': "descend_right 2 ?h' (tree_root ?t) = Done (Some 2)" by code_simp
  have b': "star ?h' (iterator (Some 2)) = Done 2" by code_simp
  have c': "iter (end_bst ?t) \<noteq> Some 2" by (simp add: end_bst_def)
  have d': "decrement 2 ?h' (end_bst ?t) = Done ?e" by code_simp
  have e': "star ?h' ?e = Done 1" by code_simp
  from run_insert_1_2 a b c d e f
  have first: "\<exists>h t m e.
      from_empty 2 (<) [Insert (1::nat), Insert 2] = Done (h, t)
      \<and> descend_right 2 h (tree_root t) = Done m \<and> star h (iterator m) = Done 2
      \<and> iter (end_bst t) \<noteq> m
      \<and> decrement 2 h (end_bst t) = Done e \<and> star h e = Done 1
      \<and> (\<forall>k. \<exists>i. increment (Suc k) h (iterator m) = Done i \<and> \<not> iter_eq i (end_bst t))"
    by blast
  from run_erase_max_with_left_child a' b' c' d' e'
  have second: "\<exists>h t m e.
      from_empty 4 (<) [Insert (1::nat), Insert 3, Insert 2, Erase 3] = Done (h, t)
      \<and> descend_right 2 h (tree_root t) = Done m \<and> star h (iterator m) = Done 2
      \<and> iter (end_bst t) \<noteq> m
      \<and> decrement 2 h (end_bst t) = Done e \<and> star h e = Done 1"
    by blast
  from first second show ?thesis by (rule conjI)
qed

text \<open>
  C4. Claim: in every reachable tree the parent links are the exact inverses of the child
  links, in particular after erasing a node with two children that is not the root.

  What the code does: insert 5, 3, 1, 4 and erase 3. The root (the node of 5) has the node
  of 1 as its left child, and the parent link of that node designates the node itself.
\<close>

theorem parent_link_after_erase_two_children:
  "\<exists>h t r rn c cn.
     from_empty 4 (<) [Insert (5::nat), Insert 3, Insert 1, Insert 4, Erase 3] = Done (h, t)
     \<and> tree_root t = Some r \<and> cell h r = Some rn \<and> nvalue rn = 5
     \<and> left rn = Some c \<and> cell h c = Some cn \<and> nvalue cn = 1
     \<and> parent cn = Some c \<and> parent cn \<noteq> Some r"
proof -
  let ?h = "[Some \<lparr>nvalue = 5::nat, left = Some 2, right = None, parent = None\<rparr>, None,
    Some \<lparr>nvalue = 1, left = None, right = Some 3, parent = Some 2\<rparr>,
    Some \<lparr>nvalue = 4, left = None, right = None, parent = Some 2\<rparr>]"
  let ?t = "\<lparr>tree_root = Some 0, tree_size = 3,
      tree_begin = \<lparr>iter = Some 2, state = valid\<rparr>,
      tree_end = \<lparr>iter = Some 0, state = after_end\<rparr>\<rparr>"
  let ?rn = "\<lparr>nvalue = 5::nat, left = Some 2, right = None, parent = None\<rparr>"
  let ?cn = "\<lparr>nvalue = 1::nat, left = None, right = Some 3, parent = Some 2\<rparr>"
  have "tree_root ?t = Some 0 \<and> cell ?h 0 = Some ?rn \<and> nvalue ?rn = 5
     \<and> left ?rn = Some 2 \<and> cell ?h 2 = Some ?cn \<and> nvalue ?cn = 1
     \<and> parent ?cn = Some 2 \<and> parent ?cn \<noteq> Some 0"
    by (simp add: cell_def)
  with run_erase_two_children show ?thesis by blast
qed

text \<open>
  C5. For a search tree in the heap and a key that is present in it (a key equivalent to
  one of the tree's keys under the strict weak order), \<^verbatim>\<open>insert (value)\<close> with enough fuel
  for the depth of the tree returns without a fault; heap and tree object are the ones it
  was given, so the size and the sequence of elements are unchanged; the result is the pair
  of an iterator to the node that holds the equivalent key and \<open>False\<close>.
\<close>

theorem insert_present_key:
  assumes "strict_weak_order cmp" and "search_tree cmp h t T"
    and "\<exists>w\<in>set (keys T). equiv_keys cmp v w" and "depth T \<le> k"
  shows "\<exists>a nd. insert_bst k cmp h t v = Done (h, t, iterator (Some a), False)
           \<and> a \<in> set (addrs T) \<and> cell h a = Some nd \<and> equiv_keys cmp v (nvalue nd)"
proof -
  from assms(3) have "length (keys T) \<noteq> 0" by auto
  then have "length (addrs T) \<noteq> 0" by (simp add: length_keys_addrs)
  with assms(2) have "tree_size t \<noteq> 0"
    by (auto simp: search_tree_def)
  then have ne: "\<not> empty_bst t" by (simp add: empty_bst_def)
  from assms(2) have "linked h (tree_root t) T" "ordered cmp T"
    by (simp_all add: search_tree_def)
  from insert_descend_present [OF assms(1) this assms(3,4)] ne
  show ?thesis by (simp add: insert_bst_def)
qed

text \<open>
  The witness is the tree that the run insert 5, 3, 1, 4, erase 3 leaves behind, and the
  key 4.
\<close>

theorem insert_present_key_witness:
  "strict_weak_order ((<) :: nat \<Rightarrow> nat \<Rightarrow> bool)
   \<and> search_tree (<)
       [Some \<lparr>nvalue = 5::nat, left = Some 2, right = None, parent = None\<rparr>, None,
        Some \<lparr>nvalue = 1, left = None, right = Some 3, parent = Some 2\<rparr>,
        Some \<lparr>nvalue = 4, left = None, right = None, parent = Some 2\<rparr>]
       \<lparr>tree_root = Some 0, tree_size = 3,
        tree_begin = \<lparr>iter = Some 2, state = valid\<rparr>,
        tree_end = \<lparr>iter = Some 0, state = after_end\<rparr>\<rparr>
       (Node (Node Leaf 2 1 (Node Leaf 3 4 Leaf)) 0 5 Leaf)
   \<and> (\<exists>w\<in>set (keys (Node (Node Leaf 2 1 (Node Leaf 3 4 Leaf)) 0 (5::nat) Leaf)).
         equiv_keys (<) 4 w)
   \<and> depth (Node (Node Leaf 2 1 (Node Leaf 3 4 Leaf)) 0 (5::nat) Leaf) \<le> 3
   \<and> (\<exists>a nd.
        insert_bst 3 (<)
          [Some \<lparr>nvalue = 5::nat, left = Some 2, right = None, parent = None\<rparr>, None,
           Some \<lparr>nvalue = 1, left = None, right = Some 3, parent = Some 2\<rparr>,
           Some \<lparr>nvalue = 4, left = None, right = None, parent = Some 2\<rparr>]
          \<lparr>tree_root = Some 0, tree_size = 3,
           tree_begin = \<lparr>iter = Some 2, state = valid\<rparr>,
           tree_end = \<lparr>iter = Some 0, state = after_end\<rparr>\<rparr> 4 =
        Done ([Some \<lparr>nvalue = 5::nat, left = Some 2, right = None, parent = None\<rparr>, None,
               Some \<lparr>nvalue = 1, left = None, right = Some 3, parent = Some 2\<rparr>,
               Some \<lparr>nvalue = 4, left = None, right = None, parent = Some 2\<rparr>],
              \<lparr>tree_root = Some 0, tree_size = 3,
               tree_begin = \<lparr>iter = Some 2, state = valid\<rparr>,
               tree_end = \<lparr>iter = Some 0, state = after_end\<rparr>\<rparr>,
              iterator (Some a), False)
        \<and> a \<in> set (addrs (Node (Node Leaf 2 1 (Node Leaf 3 4 Leaf)) 0 (5::nat) Leaf))
        \<and> cell [Some \<lparr>nvalue = 5::nat, left = Some 2, right = None, parent = None\<rparr>, None,
                 Some \<lparr>nvalue = 1, left = None, right = Some 3, parent = Some 2\<rparr>,
                 Some \<lparr>nvalue = 4, left = None, right = None, parent = Some 2\<rparr>] a = Some nd
        \<and> equiv_keys (<) 4 (nvalue nd))"
proof -
  let ?h = "[Some \<lparr>nvalue = 5::nat, left = Some 2, right = None, parent = None\<rparr>, None,
        Some \<lparr>nvalue = 1, left = None, right = Some 3, parent = Some 2\<rparr>,
        Some \<lparr>nvalue = 4, left = None, right = None, parent = Some 2\<rparr>]"
  let ?t = "\<lparr>tree_root = Some 0, tree_size = 3,
        tree_begin = \<lparr>iter = Some 2, state = valid\<rparr>,
        tree_end = \<lparr>iter = Some 0, state = after_end\<rparr>\<rparr>"
  let ?T = "Node (Node Leaf 2 1 (Node Leaf 3 4 Leaf)) 0 (5::nat) Leaf"
  have 1: "strict_weak_order ((<) :: nat \<Rightarrow> nat \<Rightarrow> bool)"
    by (auto simp: strict_weak_order_def equiv_keys_def)
  have 2: "search_tree (<) ?h ?t ?T"
    by (simp add: search_tree_def cell_def)
  have 3: "\<exists>w\<in>set (keys ?T). equiv_keys (<) 4 w"
    by (simp add: equiv_keys_def)
  have 4: "depth ?T \<le> 3" by simp
  from insert_present_key [OF 1 2 3 4] 1 2 3 4 show ?thesis by blast
qed

text \<open>
  C6. Claim: for every tree and key, \<^verbatim>\<open>lower_bound\<close> returns the smallest element not
  less than the key (or \<^verbatim>\<open>end ()\<close>) and \<^verbatim>\<open>upper_bound\<close> the smallest element greater than
  the key (or \<^verbatim>\<open>end ()\<close>).

  What the code does: insert 5, 2, 4, 3. The smallest element not less than 1 is 2, but
  \<^verbatim>\<open>lower_bound (1)\<close> walks back from the root over 4 to 3, a left child without a left
  child, whose decrement never returns: the query never returns, for any amount of fuel.
  The scenario of the specification (the set 1, 3, 4, 7, 8, 9 after erasing 5) only
  decrements nodes that have a left child: there both queries return the node of 7.
\<close>

theorem lower_bound_diverges:
  "\<exists>h t. from_empty 4 (<) [Insert (5::nat), Insert 2, Insert 4, Insert 3] = Done (h, t)
     \<and> (\<forall>k. lower_bound_impl k (<) h t 1 = Timeout)"
proof -
  let ?h = "[Some \<lparr>nvalue = 5::nat, left = Some 1, right = None, parent = None\<rparr>,
            Some \<lparr>nvalue = 2, left = None, right = Some 2, parent = Some 0\<rparr>,
            Some \<lparr>nvalue = 4, left = Some 3, right = None, parent = Some 1\<rparr>,
            Some \<lparr>nvalue = 3, left = None, right = None, parent = Some 2\<rparr>]"
  let ?t = "\<lparr>tree_root = Some 0, tree_size = 4,
            tree_begin = \<lparr>iter = Some 1, state = valid\<rparr>,
            tree_end = \<lparr>iter = Some 0, state = after_end\<rparr>\<rparr>"
  have small: "lower_bound_impl 0 (<) ?h ?t 1 = Timeout"
    "lower_bound_impl (Suc 0) (<) ?h ?t 1 = Timeout"
    "lower_bound_impl (Suc (Suc 0)) (<) ?h ?t 1 = Timeout"
    by code_simp+
  have big: "lower_bound_impl (Suc (Suc (Suc k))) (<) ?h ?t 1 = Timeout" for k
    by (simp add: lower_bound_impl_def empty_bst_def iterator_def iter_eq_def
        decrement_def deref_def cell_def decr_ascend_at_right_child)
  have "lower_bound_impl k (<) ?h ?t 1 = Timeout" for k
  proof (cases k)
    case 0
    with small show ?thesis by simp
  next
    case (Suc k1)
    note k = this
    show ?thesis
    proof (cases k1)
      case 0
      with k small show ?thesis by simp
    next
      case (Suc k2)
      note k1 = this
      show ?thesis
      proof (cases k2)
        case 0
        with k k1 small show ?thesis by simp
      next
        case (Suc k3)
        with k k1 big [of k3] show ?thesis by simp
      qed
    qed
  qed
  with run_insert_5_2_4_3 show ?thesis by blast
qed

text \<open>
  The scenario of the specification: after inserting 5, 3, 8, 1, 4, 7, 9 and erasing 5,
  \<^verbatim>\<open>lower_bound (6)\<close> and \<^verbatim>\<open>upper_bound (4)\<close> both return the iterator at 7.
\<close>

lemma bounds_in_the_scenario:
  "\<exists>h t lo up.
     from_empty 7 (<) (map Insert [5::nat, 3, 8, 1, 4, 7, 9] @ [Erase 5]) = Done (h, t)
     \<and> lower_bound_impl 7 (<) h t 6 = Done lo \<and> star h lo = Done 7
     \<and> upper_bound_impl 7 (<) h t 4 = Done up \<and> star h up = Done 7"
proof -
  let ?h = "[None, Some \<lparr>nvalue = 3::nat, left = Some 3, right = Some 4, parent = Some 5\<rparr>,
    Some \<lparr>nvalue = 8, left = Some 5, right = Some 6, parent = None\<rparr>,
    Some \<lparr>nvalue = 1, left = None, right = None, parent = Some 1\<rparr>,
    Some \<lparr>nvalue = 4, left = None, right = None, parent = Some 1\<rparr>,
    Some \<lparr>nvalue = 7, left = Some 1, right = None, parent = Some 2\<rparr>,
    Some \<lparr>nvalue = 9, left = None, right = None, parent = Some 2\<rparr>]"
  let ?t = "\<lparr>tree_root = Some 2, tree_size = 6,
      tree_begin = \<lparr>iter = Some 3, state = valid\<rparr>,
      tree_end = \<lparr>iter = Some 0, state = after_end\<rparr>\<rparr>"
  let ?i = "\<lparr>iter = Some 5, state = valid\<rparr>"
  have "from_empty 7 (<) (map Insert [5::nat, 3, 8, 1, 4, 7, 9] @ [Erase 5]) = Done (?h, ?t)"
    by code_simp
  moreover have "lower_bound_impl 7 (<) ?h ?t 6 = Done ?i" by code_simp
  moreover have "upper_bound_impl 7 (<) ?h ?t 4 = Done ?i" by code_simp
  moreover have "star ?h ?i = Done 7" by code_simp
  ultimately show ?thesis by blast
qed

text \<open>
  C7. Claim: for every tree, the empty tree included, \<^verbatim>\<open>erase (key)\<close> with an absent key
  returns zero and leaves the tree unchanged.

  What the code does: on the empty tree the descent starts at the null root pointer and
  reads its value, whatever the key; \<^verbatim>\<open>count\<close> and \<^verbatim>\<open>find\<close> test for emptiness first and
  return zero and \<^verbatim>\<open>end ()\<close>. And erasing the only key of a tree resets the owning root
  pointer, which frees the node, and then reads the parent link of that node.
\<close>

theorem erase_key_on_empty_tree:
  "erase_key (Suc k) cmp h bstree_init key = Fault NullDeref
   \<and> count_bst k cmp h bstree_init key = Done 0
   \<and> find_impl k cmp h bstree_init key = Done (end_bst bstree_init)
   \<and> from_empty (Suc (Suc k)) (<) [Insert (1::nat), Erase 1] = Fault Dangling"
proof -
  have "erase_key (Suc k) cmp h bstree_init key = Fault NullDeref
   \<and> count_bst k cmp h bstree_init key = Done 0
   \<and> find_impl k cmp h bstree_init key = Done (end_bst bstree_init)"
    by (simp add: erase_key_def count_bst_def find_impl_def empty_bst_def end_bst_def
        bstree_init_def deref_def)
  moreover have "from_empty (Suc (Suc k)) (<) [Insert (1::nat), Erase 1] = Fault Dangling"
    by (simp add: from_empty_def insert_bst_def empty_bst_def bstree_init_def make_root_def
        node_create_def root_reset_def erase_key_def erase_def erase_leaf_def increment_def
        iterator_def iter_eq_def deref_def cell_def destroy_def deallocate_def Let_def)
  ultimately show ?thesis by simp
qed

text \<open>
  C8. Claim: for ranges of size 0, 1, 2, a power of two or any other size, and every strict
  weak order, \<^verbatim>\<open>blocksort\<close> sorts the range and keeps equal elements in their order.

  What the code does: for a range of one or two elements the only block is
  \<open>[first, first + 16)\<close>, and the shell sort of that block reads \<open>first [10]\<close>, outside the
  range, whatever the elements and the comparator. A range of 16 pairs ordered by their
  first component is sorted, but the two pairs with first component 2 change places.
\<close>

theorem blocksort_small_range_out_of_bounds:
  "blocksort cmp [x] = Fault OutOfBounds
   \<and> blocksort cmp [x, y] = Fault OutOfBounds
   \<and> blocksort (\<lambda>a b. fst a < fst b)
       [(2::nat, 0::nat), (2, 1), (3, 2), (3, 3), (3, 4), (3, 5), (3, 6), (3, 7),
        (3, 8), (3, 9), (1, 10), (3, 11), (3, 12), (3, 13), (3, 14), (3, 15)] =
     Done [(1, 10), (2, 1), (2, 0), (3, 3), (3, 4), (3, 5), (3, 2), (3, 7),
           (3, 8), (3, 9), (3, 6), (3, 11), (3, 12), (3, 13), (3, 14), (3, 15)]"
proof -
  have a: "blocksort cmp [x] = Fault OutOfBounds"
    by (simp add: blocksort_def rl_pow2_def scaled_def shellsort_def curia_gap_sequence_def
        read_at_def)
  have b: "blocksort cmp [x, y] = Fault OutOfBounds"
    by (simp add: blocksort_def rl_pow2_def scaled_def shellsort_def curia_gap_sequence_def
        read_at_def)
  have c: "blocksort (\<lambda>a b. fst a < fst b)
       [(2::nat, 0::nat), (2, 1), (3, 2), (3, 3), (3, 4), (3, 5), (3, 6), (3, 7),
        (3, 8), (3, 9), (1, 10), (3, 11), (3, 12), (3, 13), (3, 14), (3, 15)] =
     Done [(1, 10), (2, 1), (2, 0), (3, 3), (3, 4), (3, 5), (3, 2), (3, 7),
           (3, 8), (3, 9), (3, 6), (3, 11), (3, 12), (3, 13), (3, 14), (3, 15)]"
    by code_simp
  from a b c show ?thesis by simp
qed

text \<open>
  C9. The hinted insertions \<^verbatim>\<open>insert (hint, value)\<close> and \<^verbatim>\<open>emplace_hint\<close> read the value
  of the hint's node before anything else and have no test for emptiness: with a hint whose
  cursor is null they dereference a null pointer, whatever the tree. On the empty tree
  \<^verbatim>\<open>begin ()\<close>, \<^verbatim>\<open>end ()\<close> and the results of \<^verbatim>\<open>find\<close>, \<^verbatim>\<open>lower_bound\<close> and
  \<^verbatim>\<open>upper_bound\<close> all carry a null cursor, whereas \<^verbatim>\<open>insert (value)\<close> on the empty tree
  creates the root.
\<close>

theorem hinted_insert_null_deref:
  "(iter hint = None \<longrightarrow>
      insert_hint k cmp h t hint v = Fault NullDeref
      \<and> emplace_hint k cmp h t hint v = Fault NullDeref)
   \<and> iter (begin_bst bstree_init) = None
   \<and> iter (end_bst bstree_init) = None
   \<and> find_impl k cmp h bstree_init key = Done (end_bst bstree_init)
   \<and> lower_bound_impl k cmp h bstree_init key = Done (end_bst bstree_init)
   \<and> upper_bound_impl k cmp h bstree_init key = Done (end_bst bstree_init)
   \<and> insert_bst k cmp h bstree_init v =
       Done (h @ [Some \<lparr>nvalue = v, left = None, right = None, parent = None\<rparr>],
             \<lparr>tree_root = Some (length h), tree_size = 1,
              tree_begin = \<lparr>iter = Some (length h), state = valid\<rparr>,
              tree_end = \<lparr>iter = Some (length h), state = after_end\<rparr>\<rparr>,
             \<lparr>iter = Some (length h), state = valid\<rparr>, True)"
proof -
  have a: "iter hint = None \<longrightarrow>
      insert_hint k cmp h t hint v = Fault NullDeref
      \<and> emplace_hint k cmp h t hint v = Fault NullDeref"
    by (simp add: insert_hint_def emplace_hint_def iterator_def deref_def node_create_def
        cell_def)
  have b: "iter (begin_bst bstree_init) = None \<and> iter (end_bst bstree_init) = None"
    by (simp add: begin_bst_def end_bst_def bstree_init_def iterator_default_def)
  have c: "find_impl k cmp h bstree_init key = Done (end_bst bstree_init)
     \<and> lower_bound_impl k cmp h bstree_init key = Done (end_bst bstree_init)
     \<and> upper_bound_impl k cmp h bstree_init key = Done (end_bst bstree_init)"
    by (simp add: find_impl_def lower_bound_impl_def upper_bound_impl_def empty_bst_def
        end_bst_def bstree_init_def)
  have d: "insert_bst k cmp h bstree_init v =
       Done (h @ [Some \<lparr>nvalue = v, left = None, right = None, parent = None\<rparr>],
             \<lparr>tree_root = Some (length h), tree_size = 1,
              tree_begin = \<lparr>iter = Some (length h), state = valid\<rparr>,
              tree_end = \<lparr>iter = Some (length h), state = after_end\<rparr>\<rparr>,
             \<lparr>iter = Some (length h), state = valid\<rparr>, True)"
    by (simp add: insert_bst_def empty_bst_def bstree_init_def make_root_def node_create_def
        root_reset_def iterator_def)
  from a b c d show ?thesis by simp
qed

theorem hinted_insert_null_deref_witness:
  "iter (end_bst bstree_init) = None
   \<and> insert_hint 1 (<) [] bstree_init (end_bst bstree_init) (5::nat) = Fault NullDeref
   \<and> emplace_hint 1 (<) [] bstree_init (end_bst bstree_init) (5::nat) = Fault NullDeref"
  using hinted_insert_null_deref [of "end_bst bstree_init" 1 "(<)" "[]" bstree_init "5::nat" 5]
  by (simp add: end_bst_def bstree_init_def iterator_default_def)

text \<open>
  C10. The tree that a move constructor or the move assignment has moved from is empty:
  its size is zero, \<^verbatim>\<open>empty ()\<close> holds, and \<^verbatim>\<open>begin ()\<close> and \<^verbatim>\<open>end ()\<close> are both the
  default iterator and compare equal. For the constructors this holds outright. For the
  assignment, in each of its three branches and for the assignment of a tree to itself, it
  holds when the trees are well laid out and share no node and the fuel covers the walks
  over them; the call then returns.
\<close>

theorem moved_from_tree_is_empty:
  "(case move_construct other of
      (new, other') \<Rightarrow>
        new = other \<and> size_bst other' = 0 \<and> empty_bst other'
        \<and> iter_eq (begin_bst other') (end_bst other')
        \<and> begin_bst other' = iterator_default \<and> end_bst other' = iterator_default)
   \<and> (well_laid h this T1 \<and> well_laid h other T2 \<and> set (addrs T1) \<inter> set (addrs T2) = {}
        \<and> 2 * (length (addrs T1) + length (addrs T2)) \<le> k \<longrightarrow>
       (\<exists>h' this' other'.
          move_assign k propagate alloc_differ h this other = Done (h', this', other')
          \<and> size_bst other' = 0 \<and> empty_bst other'
          \<and> iter_eq (begin_bst other') (end_bst other')
          \<and> begin_bst other' = iterator_default \<and> end_bst other' = iterator_default))
   \<and> (well_laid h this T1 \<and> 2 * length (addrs T1) \<le> k \<longrightarrow>
       (\<exists>h' this'.
          move_assign_self k h this = Done (h', this')
          \<and> size_bst this' = 0 \<and> empty_bst this'
          \<and> iter_eq (begin_bst this') (end_bst this')
          \<and> begin_bst this' = iterator_default \<and> end_bst this' = iterator_default))"
proof (intro conjI impI)
  show "case move_construct other of
      (new, other') \<Rightarrow>
        new = other \<and> size_bst other' = 0 \<and> empty_bst other'
        \<and> iter_eq (begin_bst other') (end_bst other')
        \<and> begin_bst other' = iterator_default \<and> end_bst other' = iterator_default"
    by (simp add: move_construct_def root_release_def size_bst_def empty_bst_def
        begin_bst_def end_bst_def iter_eq_default)
next
  assume a: "well_laid h this T1 \<and> well_laid h other T2 \<and> set (addrs T1) \<inter> set (addrs T2) = {}
        \<and> 2 * (length (addrs T1) + length (addrs T2)) \<le> k"
  then have w1: "well_laid h this T1" and k1: "2 * length (addrs T1) \<le> k" by simp_all
  let ?o = "other\<lparr>tree_root := None, tree_size := 0, tree_begin := iterator_default,
                        tree_end := iterator_default\<rparr>"
  have e: "size_bst ?o = 0 \<and> empty_bst ?o \<and> iter_eq (begin_bst ?o) (end_bst ?o)
          \<and> begin_bst ?o = iterator_default \<and> end_bst ?o = iterator_default"
    by (simp add: size_bst_def empty_bst_def begin_bst_def end_bst_def iter_eq_default)
  show "\<exists>h' this' other'.
          move_assign k propagate alloc_differ h this other = Done (h', this', other')
          \<and> size_bst other' = 0 \<and> empty_bst other'
          \<and> iter_eq (begin_bst other') (end_bst other')
          \<and> begin_bst other' = iterator_default \<and> end_bst other' = iterator_default"
  proof (cases "\<not> propagate \<and> alloc_differ")
    case True
    from a move_assign_move_branch [of h this T1 other T2 k]
    obtain h' this' where "move_assign k False True h this other =
           Done (h', this',
                 other\<lparr>tree_size := 0, tree_begin := iterator_default,
                        tree_end := iterator_default, tree_root := None\<rparr>)"
      by blast
    with True have "move_assign k propagate alloc_differ h this other =
           Done (h', this', other\<lparr>tree_size := 0, tree_begin := iterator_default,
                        tree_end := iterator_default, tree_root := None\<rparr>)"
      by simp
    then show ?thesis
      by (simp add: size_bst_def empty_bst_def begin_bst_def end_bst_def iter_eq_default)
  next
    case False
    from move_assign_swap_branch [OF w1 k1, of other] obtain h' where
      s: "rbind (clear k h this) (\<lambda>(h1, this1).
             case swap_members this1 other of (this2, other2) \<Rightarrow> Done (h1, this2, other2)) =
           Done (h', other, ?o)"
      by blast
    from False have "move_assign k propagate alloc_differ h this other =
        rbind (clear k h this) (\<lambda>(h1, this1).
             case swap_members this1 other of (this2, other2) \<Rightarrow> Done (h1, this2, other2))"
      by (auto simp: move_assign_def)
    with s have "move_assign k propagate alloc_differ h this other = Done (h', other, ?o)"
      by simp
    with e show ?thesis by blast
  qed
next
  assume a: "well_laid h this T1 \<and> 2 * length (addrs T1) \<le> k"
  then have "laid_out h (tree_root this) None T1" "distinct (addrs T1)" "2 * length (addrs T1) \<le> k"
    by (simp_all add: well_laid_def)
  from clear_well_laid [OF this] obtain h' where
    "clear k h this =
       Done (h', this\<lparr>tree_size := 0, tree_begin := iterator_default,
                      tree_end := iterator_default, tree_root := None\<rparr>)"
    by blast
  then show "\<exists>h' this'.
          move_assign_self k h this = Done (h', this')
          \<and> size_bst this' = 0 \<and> empty_bst this'
          \<and> iter_eq (begin_bst this') (end_bst this')
          \<and> begin_bst this' = iterator_default \<and> end_bst this' = iterator_default"
    by (simp add: move_assign_self_def swap_members_def size_bst_def empty_bst_def
        begin_bst_def end_bst_def iter_eq_default)
qed

theorem moved_from_tree_is_empty_witness:
  "well_laid
     [Some \<lparr>nvalue = 2::nat, left = Some 1, right = None, parent = None\<rparr>,
      Some \<lparr>nvalue = 1, left = None, right = None, parent = Some 0\<rparr>,
      Some \<lparr>nvalue = 7, left = None, right = None, parent = None\<rparr>]
     \<lparr>tree_root = Some 0, tree_size = 2,
      tree_begin = \<lparr>iter = Some 1, state = valid\<rparr>,
      tree_end = \<lparr>iter = Some 0, state = after_end\<rparr>\<rparr>
     (Node (Node Leaf 1 1 Leaf) 0 2 Leaf)
   \<and> well_laid
     [Some \<lparr>nvalue = 2::nat, left = Some 1, right = None, parent = None\<rparr>,
      Some \<lparr>nvalue = 1, left = None, right = None, parent = Some 0\<rparr>,
      Some \<lparr>nvalue = 7, left = None, right = None, parent = None\<rparr>]
     \<lparr>tree_root = Some 2, tree_size = 1,
      tree_begin = \<lparr>iter = Some 2, state = valid\<rparr>,
      tree_end = \<lparr>iter = Some 2, state = after_end\<rparr>\<rparr>
     (Node Leaf 2 7 Leaf)
   \<and> set (addrs (Node (Node Leaf 1 1 Leaf) 0 (2::nat) Leaf))
       \<inter> set (addrs (Node Leaf 2 (7::nat) Leaf)) = {}
   \<and> 2 * (length (addrs (Node (Node Leaf 1 1 Leaf) 0 (2::nat) Leaf))
          + length (addrs (Node Leaf 2 (7::nat) Leaf))) \<le> 6
   \<and> (\<exists>h' this' other'.
        move_assign 6 False True
          [Some \<lparr>nvalue = 2::nat, left = Some 1, right = None, parent = None\<rparr>,
           Some \<lparr>nvalue = 1, left = None, right = None, parent = Some 0\<rparr>,
           Some \<lparr>nvalue = 7, left = None, right = None, parent = None\<rparr>]
          \<lparr>tree_root = Some 0, tree_size = 2,
           tree_begin = \<lparr>iter = Some 1, state = valid\<rparr>,
           tree_end = \<lparr>iter = Some 0, state = after_end\<rparr>\<rparr>
          \<lparr>tree_root = Some 2, tree_size = 1,
           tree_begin = \<lparr>iter = Some 2, state = valid\<rparr>,
           tree_end = \<lparr>iter = Some 2, state = after_end\<rparr>\<rparr> = Done (h', this', other')
        \<and> size_bst other' = 0 \<and> empty_bst other'
        \<and> iter_eq (begin_bst other') (end_bst other'))"
proof -
  let ?h = "[Some \<lparr>nvalue = 2::nat, left = Some 1, right = None, parent = None\<rparr>,
      Some \<lparr>nvalue = 1, left = None, right = None, parent = Some 0\<rparr>,
      Some \<lparr>nvalue = 7, left = None, right = None, parent = None\<rparr>]"
  let ?t1 = "\<lparr>tree_root = Some 0, tree_size = 2,
      tree_begin = \<lparr>iter = Some 1, state = valid\<rparr>,
      tree_end = \<lparr>iter = Some 0, state = after_end\<rparr>\<rparr>"
  let ?t2 = "\<lparr>tree_root = Some 2, tree_size = 1,
      tree_begin = \<lparr>iter = Some 2, state = valid\<rparr>,
      tree_end = \<lparr>iter = Some 2, state = after_end\<rparr>\<rparr>"
  let ?T1 = "Node (Node Leaf 1 1 Leaf) 0 (2::nat) Leaf"
  let ?T2 = "Node Leaf 2 (7::nat) Leaf"
  have 1: "well_laid ?h ?t1 ?T1" by (simp add: well_laid_def cell_def)
  have 2: "well_laid ?h ?t2 ?T2" by (simp add: well_laid_def cell_def)
  have 3: "set (addrs ?T1) \<inter> set (addrs ?T2) = {}" by simp
  have 4: "2 * (length (addrs ?T1) + length (addrs ?T2)) \<le> 6" by simp
  from moved_from_tree_is_empty
    [where h = ?h and this = ?t1 and other = ?t2 and ?T1.0 = ?T1 and ?T2.0 = ?T2
       and k = 6 and propagate = False and alloc_differ = True]
    1 2 3 4
  show ?thesis by blast
qed

end
